theory Spec2Isabelle
  imports Main
begin

section \<open>Computation graphs\<close>

text \<open>
  A node of the computation graph is a \<^verbatim>\<open>RooAbsArg\<close>; it is referred to by its
  \<^verbatim>\<open>DataKey\<close>, a stable key that also stands for its name.  A \<^verbatim>\<open>RooArgSet\<close> or
  \<^verbatim>\<open>RooArgList\<close> is an ordered collection of node keys.
\<close>

type_synonym node = nat
type_synonym argset = "node list"

text \<open>
  The graph is the store of the live \<^verbatim>\<open>RooAbsArg\<close> objects.  The server lists and the
  attributes are rewritten in place by the code; the remaining fields are the
  capability surface of a node (its dynamic type and virtual functions).
  \<open>isValueServer g server arg\<close> is \<^verbatim>\<open>server->isValueServer(arg)\<close>, and
  \<open>fillNormSetForServer g arg normSet server\<close> is
  \<^verbatim>\<open>arg.fillNormSetForServer(normSet, *server)\<close>.  \<open>wrapped\<close> holds, for a
  \<^verbatim>\<open>RooNormalizedPdf\<close>, the pdf it wraps and its normalization set.
\<close>

record graph =
  live :: "node list"
  servers :: "node \<Rightarrow> node list"
  attribs :: "node \<Rightarrow> node set"
  isDerived :: "node \<Rightarrow> bool"
  isFundamental :: "node \<Rightarrow> bool"
  isPdf :: "node \<Rightarrow> bool"
  isCachedPdf :: "node \<Rightarrow> bool"
  selfNormalized :: "node \<Rightarrow> bool"
  isValueServer :: "node \<Rightarrow> node \<Rightarrow> bool"
  fillNormSetForServer :: "node \<Rightarrow> argset \<Rightarrow> node \<Rightarrow> argset option"
  wrapped :: "node \<rightharpoonup> node \<times> argset"

text \<open>
  Adding to a \<^verbatim>\<open>RooArgSet\<close> (silently) leaves the set as it is when the element is
  already in it.
\<close>

definition add_silent :: "argset \<Rightarrow> node \<Rightarrow> argset" where
  "add_silent list a = (if a \<in> set list then list else list @ [a])"

text \<open>The clients of a node are the live nodes that list it among their servers.\<close>

definition clients :: "graph \<Rightarrow> node \<Rightarrow> node list" where
  "clients g n = filter (\<lambda>c. n \<in> set (servers g c)) (live g)"

datatype msgpart =
  Str string | ClassName node | GetName node | PrintValue argset

datatype error =
  OutOfRange
| NullDereference
| RuntimeError "msgpart list"

section \<open>GraphChecker\<close>

record checker =
  serverLists :: "node \<rightharpoonup> node list"
  results :: "node \<times> node \<rightharpoonup> bool"

text \<open>
  A loop over a list whose body may fail to return: the state is handed from one
  element to the next, and \<open>None\<close> ends the loop.
\<close>

primrec foldOpt :: "('s \<Rightarrow> 'a \<Rightarrow> 's option) \<Rightarrow> 'a list \<Rightarrow> 's \<Rightarrow> 's option" where
  "foldOpt f [] s = Some s"
| "foldOpt f (x # xs) s = (case f s x of None \<Rightarrow> None | Some s' \<Rightarrow> foldOpt f xs s')"

text \<open>
  Modelled from the spec: \<^verbatim>\<open>RooAbsArg::treeNodeServerList\<close> is not part of the sources
  at hand.  With the flags of the call in the constructor of \<^verbatim>\<open>GraphChecker\<close> (branches
  and leaves, not value servers only) it appends the node and then every node reached
  through its servers.  The first argument bounds the depth of the recursion; \<open>None\<close>
  means that the walk did not return within it.
\<close>

fun treeNodeServerList :: "nat \<Rightarrow> graph \<Rightarrow> bool \<Rightarrow> node list \<Rightarrow> node \<Rightarrow> node list option" where
  "treeNodeServerList 0 g valueOnly list arg = None"
| "treeNodeServerList (Suc fuel) g valueOnly list arg =
     foldOpt (\<lambda>list' server.
                if valueOnly \<and> \<not> isValueServer g server arg then Some list'
                else treeNodeServerList fuel g valueOnly list' server)
       (servers g arg) (list @ [arg])"

text \<open>
  The constructor: one entry per node of the tree, holding its servers, then every entry
  sorted and freed of duplicates.
\<close>

definition push_back_servers :: "graph \<Rightarrow> (node \<rightharpoonup> node list) \<Rightarrow> node \<Rightarrow> (node \<rightharpoonup> node list)" where
  "push_back_servers g sl n =
     sl(n \<mapsto> (case sl n of None \<Rightarrow> [] | Some l \<Rightarrow> l) @ servers g n)"

definition sort_unique :: "node list \<Rightarrow> node list" where
  "sort_unique l = remdups_adj (sort l)"

definition GraphChecker :: "nat \<Rightarrow> graph \<Rightarrow> node \<Rightarrow> checker option" where
  "GraphChecker fuel g topNode =
     (case treeNodeServerList fuel g False [] topNode of
        None \<Rightarrow> None
      | Some nodes \<Rightarrow>
          let nodesSet = foldl add_silent [] nodes;
              sl = foldl (push_back_servers g) Map.empty nodesSet
          in Some \<lparr> serverLists = (\<lambda>n. map_option sort_unique (sl n)), results = Map.empty \<rparr>)"

text \<open>\<^verbatim>\<open>std::map::emplace\<close> keeps an entry that is already there.\<close>

definition emplace :: "node \<times> node \<Rightarrow> bool \<Rightarrow> checker \<Rightarrow> checker" where
  "emplace p v ck =
     (case results ck p of
        None \<Rightarrow> ck\<lparr>results := (results ck)(p \<mapsto> v)\<rparr>
      | Some _ \<Rightarrow> ck)"

text \<open>
  The loop of \<^verbatim>\<open>dependsOn\<close> over the server list; \<open>rec\<close> is the recursive call
  \<^verbatim>\<open>dependsOn(server, testArg)\<close>.
\<close>

fun dependsOn_servers ::
  "(checker \<Rightarrow> node \<Rightarrow> (error + bool \<times> checker) option) \<Rightarrow> node \<times> node \<Rightarrow> node \<Rightarrow>
   node list \<Rightarrow> checker \<Rightarrow> (error + bool \<times> checker) option" where
  "dependsOn_servers rec p testArg [] ck = Some (Inr (False, emplace p False ck))"
| "dependsOn_servers rec p testArg (server # rest) ck =
     (case rec ck server of
        None \<Rightarrow> None
      | Some (Inl e) \<Rightarrow> Some (Inl e)
      | Some (Inr (t, ck')) \<Rightarrow>
          let ck'' = emplace (server, testArg) t ck'
          in if t then Some (Inr (True, ck''))
             else dependsOn_servers rec p testArg rest ck'')"

text \<open>
  \<^verbatim>\<open>GraphChecker::dependsOn\<close>.  \<open>Inl OutOfRange\<close> is the exception of
  \<^verbatim>\<open>_serverLists.at(arg)\<close>; \<open>None\<close> means that the recursion is deeper than the bound.
\<close>

fun dependsOn :: "nat \<Rightarrow> checker \<Rightarrow> node \<Rightarrow> node \<Rightarrow> (error + bool \<times> checker) option" where
  "dependsOn 0 ck arg testArg = None"
| "dependsOn (Suc fuel) ck arg testArg =
     (case results ck (arg, testArg) of
        Some found \<Rightarrow> Some (Inr (found, ck))
      | None \<Rightarrow>
          if arg = testArg then Some (Inr (True, ck))
          else (case serverLists ck arg of
                  None \<Rightarrow> Some (Inl OutOfRange)
                | Some serverList \<Rightarrow>
                    if testArg \<in> set serverList
                    then Some (Inr (True, emplace (arg, testArg) True ck))
                    else dependsOn_servers (\<lambda>ck' server. dependsOn fuel ck' server testArg)
                           (arg, testArg) testArg serverList ck))"

section \<open>Propagation of the normalization sets\<close>

text \<open>
  The state of \<^verbatim>\<open>treeNodeServerListAndNormSets\<close>: the collection \<^verbatim>\<open>list\<close> of the nodes
  met so far (\<open>p_list\<close>) and the table \<^verbatim>\<open>normSets\<close>, kept in insertion order.  \<open>entered\<close> is
  instrumentation: it logs every call that gets past the first \<^verbatim>\<open>return\<close>.
\<close>

record propagation =
  p_list :: argset
  normSets :: "(node \<times> argset) list"
  entered :: "node list"

text \<open>
  Modelled from the spec: \<^verbatim>\<open>RooAbsCollection::hasSameLayout\<close> is not part of the sources
  at hand; two collections have the same layout when they agree position by position
  where they overlap.
\<close>

definition hasSameLayout :: "argset \<Rightarrow> argset \<Rightarrow> bool" where
  "hasSameLayout xs ys = list_all (\<lambda>(x, y). x = y) (zip xs ys)"

text \<open>The text of the \<^verbatim>\<open>std::runtime_error\<close>, in the order the stream receives it.\<close>

definition conflictMessage :: "node \<Rightarrow> argset \<Rightarrow> node \<Rightarrow> argset \<Rightarrow> msgpart list" where
  "conflictMessage server serverNormSet arg found =
     [ClassName server, Str ''::'', GetName server,
      Str '' is requested to be evaluated with two different normalization sets in the same model!'',
      Str ('' This is not supported yet. The conflicting norm sets are:'' @ [CHR 0x0A] @ ''    RooArgSet''),
      PrintValue serverNormSet,
      Str '' requested by '', ClassName arg, Str ''::'', GetName arg,
      Str ([CHR 0x0A] @ ''    RooArgSet''),
      PrintValue found,
      Str '' first requested by other client'']"

text \<open>
  The normalization set for a server: the sorted set that the node supplies for it, or
  else the set of the node itself.  A collection is sorted by name, that is, by key.
\<close>

definition serverNormSet :: "graph \<Rightarrow> node \<Rightarrow> argset \<Rightarrow> node \<Rightarrow> argset" where
  "serverNormSet g arg normSet server =
     (let differentSet = map_option sort (fillNormSetForServer g arg normSet server)
      in case differentSet of Some d \<Rightarrow> d | None \<Rightarrow> normSet)"

text \<open>
  The loop over \<^verbatim>\<open>arg.servers()\<close>; \<open>rec\<close> is the recursive call on a server with the
  normalization set chosen for it.
\<close>

fun propagate_servers ::
  "(node \<Rightarrow> argset \<Rightarrow> propagation \<Rightarrow> (error + propagation) option) \<Rightarrow> graph \<Rightarrow> node \<Rightarrow>
   argset \<Rightarrow> node list \<Rightarrow> propagation \<Rightarrow> (error + propagation) option" where
  "propagate_servers rec g arg normSet [] st = Some (Inr st)"
| "propagate_servers rec g arg normSet (server # rest) st =
     (if \<not> isValueServer g server arg then propagate_servers rec g arg normSet rest st
      else
        let sns = serverNormSet g arg normSet server
        in case map_of (normSets st) server of
             Some found \<Rightarrow>
               if length found \<noteq> length sns \<or> \<not> hasSameLayout sns found
               then Some (Inl (RuntimeError (conflictMessage server sns arg found)))
               else propagate_servers rec g arg normSet rest st
           | None \<Rightarrow>
               (case rec server sns st of
                  None \<Rightarrow> None
                | Some (Inl e) \<Rightarrow> Some (Inl e)
                | Some (Inr st') \<Rightarrow> propagate_servers rec g arg normSet rest st'))"

text \<open>
  The node is added to the collection, and a pdf gets its entry in the table of
  normalization sets.
\<close>

definition visit :: "graph \<Rightarrow> node \<Rightarrow> argset \<Rightarrow> propagation \<Rightarrow> propagation" where
  "visit g arg normSet st =
     (let st1 = st\<lparr>p_list := add_silent (p_list st) arg, entered := entered st @ [arg]\<rparr>
      in if isPdf g arg then st1\<lparr>normSets := normSets st1 @ [(arg, normSet)]\<rparr> else st1)"

fun treeNodeServerListAndNormSets ::
  "nat \<Rightarrow> graph \<Rightarrow> node \<Rightarrow> argset \<Rightarrow> propagation \<Rightarrow> (error + propagation) option" where
  "treeNodeServerListAndNormSets 0 g arg normSet st = None"
| "treeNodeServerListAndNormSets (Suc fuel) g arg normSet st =
     (if map_of (normSets st) arg \<noteq> None then Some (Inr st)
      else
        let st' = visit g arg normSet st
        in if isDerived g arg \<and> \<not> isFundamental g arg
           then propagate_servers (treeNodeServerListAndNormSets fuel g) g arg normSet
                  (servers g arg) st'
           else Some (Inr st'))"

section \<open>Unfolding the integrals\<close>

text \<open>
  What \<^verbatim>\<open>unfoldIntegrals\<close> and \<^verbatim>\<open>foldIntegrals\<close> read and write: the graph, the table of
  normalization sets and the two index-aligned collections of replaced and new nodes.
  \<open>getValCalls\<close> logs the calls \<^verbatim>\<open>pdf->getVal(currNormSet)\<close>.
\<close>

record world =
  graph :: graph
  w_normSets :: "(node \<times> argset) list"
  replacedArgs :: argset
  newArgs :: argset
  getValCalls :: "(node \<times> argset) list"

text \<open>
  Narrowing one normalization set: the inner loop over \<^verbatim>\<open>*item.second\<close>.  (The
  outer loop runs over the table in the order of insertion; the source leaves the order
  to \<^verbatim>\<open>std::unordered_map\<close>.)
  \<^verbatim>\<open>nodes.find(*narg)\<close> is a null pointer when the collection has no such element.
\<close>

fun clean_normSet ::
  "nat \<Rightarrow> argset \<Rightarrow> node \<Rightarrow> argset \<Rightarrow> checker \<Rightarrow> argset \<Rightarrow> (error + checker \<times> argset) option" where
  "clean_normSet fuel nodes key [] ck actualNormSet = Some (Inr (ck, actualNormSet))"
| "clean_normSet fuel nodes key (narg # rest) ck actualNormSet =
     (case dependsOn fuel ck key narg of
        None \<Rightarrow> None
      | Some (Inl e) \<Rightarrow> Some (Inl e)
      | Some (Inr (t, ck')) \<Rightarrow>
          if t then
            (case find (\<lambda>n. n = narg) nodes of
               None \<Rightarrow> Some (Inl NullDereference)
             | Some n \<Rightarrow> clean_normSet fuel nodes key rest ck' (add_silent actualNormSet n))
          else clean_normSet fuel nodes key rest ck' actualNormSet)"

fun clean_normSets ::
  "nat \<Rightarrow> argset \<Rightarrow> (node \<times> argset) list \<Rightarrow> checker \<Rightarrow>
   (error + checker \<times> (node \<times> argset) list) option" where
  "clean_normSets fuel nodes [] ck = Some (Inr (ck, []))"
| "clean_normSets fuel nodes ((key, s) # items) ck =
     (if s = [] then
        (case clean_normSets fuel nodes items ck of
           None \<Rightarrow> None
         | Some (Inl e) \<Rightarrow> Some (Inl e)
         | Some (Inr (ck', items')) \<Rightarrow> Some (Inr (ck', (key, s) # items')))
      else
        (case clean_normSet fuel nodes key s ck [] of
           None \<Rightarrow> None
         | Some (Inl e) \<Rightarrow> Some (Inl e)
         | Some (Inr (ck1, actualNormSet)) \<Rightarrow>
             (case clean_normSets fuel nodes items ck1 of
                None \<Rightarrow> None
              | Some (Inl e) \<Rightarrow> Some (Inl e)
              | Some (Inr (ck', items')) \<Rightarrow> Some (Inr (ck', (key, actualNormSet) # items')))))"

text \<open>
  \<^verbatim>\<open>setAttribute\<close> with the attribute \<^verbatim>\<open>ORIGNAME:\<close> followed by the name of a node; the
  set of attributes of a node holds the keys of the nodes so named.
\<close>

definition setAttribute :: "node \<Rightarrow> node \<Rightarrow> bool \<Rightarrow> graph \<Rightarrow> graph" where
  "setAttribute n origName v g =
     g\<lparr>attribs := (attribs g)(n := (if v then insert origName (attribs g n)
                                     else attribs g n - {origName}))\<rparr>"

text \<open>
  Modelled from the spec: \<^verbatim>\<open>RooAbsArg::findNewServer\<close> is not part of the sources at
  hand.  With \<^verbatim>\<open>nameChange = true\<close> the replacement for a server is the node of the new
  collection that carries the origin marker of that server; without such a node the
  server stays.
\<close>

definition findNewServer :: "graph \<Rightarrow> argset \<Rightarrow> node \<Rightarrow> node" where
  "findNewServer g newSet oldServer =
     (case find (\<lambda>n. oldServer \<in> attribs g n) newSet of
        Some n \<Rightarrow> n
      | None \<Rightarrow> oldServer)"

text \<open>
  Modelled from the spec: \<^verbatim>\<open>RooAbsArg::redirectServers\<close> is not part of the sources at
  hand.  Called with \<^verbatim>\<open>mustReplaceAll = false\<close> and \<^verbatim>\<open>nameChange = true\<close>, it puts the
  replacement in the place of every server of the client that has one, and leaves the
  other servers alone.
\<close>

definition redirectServers :: "argset \<Rightarrow> node \<Rightarrow> graph \<Rightarrow> graph" where
  "redirectServers newSet client g =
     g\<lparr>servers := (servers g)(client := map (findNewServer g newSet) (servers g client))\<rparr>"

text \<open>
  Modelled from the spec: \<^verbatim>\<open>RooAbsArg::recursiveRedirectServers\<close> is not part of the
  sources at hand.  It redirects the servers of the node, then those of every node
  reached through its servers.
\<close>

fun recursiveRedirectServers :: "nat \<Rightarrow> argset \<Rightarrow> node \<Rightarrow> graph \<Rightarrow> graph option" where
  "recursiveRedirectServers 0 newSet n g = None"
| "recursiveRedirectServers (Suc fuel) newSet n g =
     (let g' = redirectServers newSet n g
      in foldOpt (\<lambda>g'' server. recursiveRedirectServers fuel newSet server g'')
           (servers g' n) g')"

text \<open>
  Modelled from the spec: the allocation of a new object is not part of the sources at
  hand.  A new node gets a key that no live node has.
\<close>

definition fresh :: "graph \<Rightarrow> node" where
  "fresh g = Suc (fold max (live g) 0)"

text \<open>
  Modelled from the spec: the constructor of \<^verbatim>\<open>RooNormalizedPdf\<close> is not part of the
  sources at hand.  The wrapper is a new pdf that has the wrapped pdf as its server,
  carries the normalization set and reports itself as self-normalized.
\<close>

definition RooNormalizedPdf :: "node \<Rightarrow> argset \<Rightarrow> graph \<Rightarrow> node \<times> graph" where
  "RooNormalizedPdf pdf normSet g =
     (let n = fresh g in
      (n, g\<lparr>live := live g @ [n],
            servers := (servers g)(n := [pdf]),
            attribs := (attribs g)(n := {}),
            isDerived := (isDerived g)(n := True),
            isFundamental := (isFundamental g)(n := False),
            isPdf := (isPdf g)(n := True),
            isCachedPdf := (isCachedPdf g)(n := False),
            selfNormalized := (selfNormalized g)(n := True),
            wrapped := (wrapped g)(n \<mapsto> (pdf, normSet))\<rparr>))"

text \<open>
  The lambda \<^verbatim>\<open>replaceArg\<close> of \<^verbatim>\<open>unfoldIntegrals\<close>; \<open>nodes\<close> is the collection it
  captures.
\<close>

definition replaceArg :: "argset \<Rightarrow> node \<Rightarrow> node \<Rightarrow> world \<Rightarrow> world" where
  "replaceArg nodes newArg oldArg w =
     (let g1 = setAttribute newArg oldArg True (graph w);
          newServerList = [newArg];
          originalClients = filter (\<lambda>client. client \<in> set nodes) (clients g1 oldArg);
          g2 = fold (\<lambda>client g. if isCachedPdf g client then g
                                 else redirectServers newServerList client g)
                 originalClients g1
      in w\<lparr>graph := setAttribute newArg oldArg False g2,
           replacedArgs := add_silent (replacedArgs w) oldArg,
           newArgs := add_silent (newArgs w) newArg\<rparr>)"

text \<open>
  The last loop of \<^verbatim>\<open>unfoldIntegrals\<close>, over \<^verbatim>\<open>nodes\<close>; the second component of the
  state is \<^verbatim>\<open>newNodes\<close>.  \<open>Inl OutOfRange\<close> is the exception of \<^verbatim>\<open>normSets.at(pdf)\<close>.
\<close>

fun replace_pdfs :: "argset \<Rightarrow> node list \<Rightarrow> world \<times> node list \<Rightarrow> error + world \<times> node list" where
  "replace_pdfs nodes [] (w, newNodes) = Inr (w, newNodes)"
| "replace_pdfs nodes (node # rest) (w, newNodes) =
     (if isPdf (graph w) node then
        (case map_of (w_normSets w) node of
           None \<Rightarrow> Inl OutOfRange
         | Some currNormSet \<Rightarrow>
             if currNormSet = [] then replace_pdfs nodes rest (w, newNodes)
             else
               let w1 = w\<lparr>getValCalls := getValCalls w @ [(node, currNormSet)]\<rparr>
               in if selfNormalized (graph w1) node \<and> \<not> isCachedPdf (graph w1) node
                  then replace_pdfs nodes rest (w1, newNodes)
                  else
                    let (normalizedPdf, g') = RooNormalizedPdf node currNormSet (graph w1);
                        w2 = replaceArg nodes normalizedPdf node (w1\<lparr>graph := g'\<rparr>)
                    in replace_pdfs nodes rest (w2, newNodes @ [normalizedPdf]))
      else replace_pdfs nodes rest (w, newNodes))"

definition unfoldIntegrals ::
  "nat \<Rightarrow> node \<Rightarrow> argset \<Rightarrow> world \<Rightarrow> (error + world \<times> node list) option" where
  "unfoldIntegrals fuel topNode normSet w =
     (if normSet = [] then Some (Inr (w, []))
      else
        case GraphChecker fuel (graph w) topNode of
          None \<Rightarrow> None
        | Some checker \<Rightarrow>
            let normSetSorted = sort normSet in
            (case treeNodeServerListAndNormSets fuel (graph w) topNode normSetSorted
                    \<lparr>p_list = [], normSets = w_normSets w, entered = []\<rparr> of
               None \<Rightarrow> None
             | Some (Inl e) \<Rightarrow> Some (Inl e)
             | Some (Inr st) \<Rightarrow>
                 (case clean_normSets fuel (p_list st) (normSets st) checker of
                    None \<Rightarrow> None
                  | Some (Inl e) \<Rightarrow> Some (Inl e)
                  | Some (Inr (checker', normSets')) \<Rightarrow>
                      Some (replace_pdfs (p_list st) (p_list st) (w\<lparr>w_normSets := normSets'\<rparr>, [])))))"

text \<open>\<^verbatim>\<open>foldIntegrals\<close>; the assertion is the first check.\<close>

datatype fold_error = AssertionFailed

definition foldIntegrals :: "nat \<Rightarrow> node \<Rightarrow> world \<Rightarrow> (fold_error + world) option" where
  "foldIntegrals fuel topNode w =
     (if length (replacedArgs w) \<noteq> length (newArgs w) then Some (Inl AssertionFailed)
      else
        let g1 = fold (\<lambda>(old, new). setAttribute old new True)
                   (zip (replacedArgs w) (newArgs w)) (graph w)
        in case recursiveRedirectServers fuel (replacedArgs w) topNode g1 of
             None \<Rightarrow> None
           | Some g2 \<Rightarrow>
               Some (Inr (w\<lparr>graph := fold (\<lambda>(old, new). setAttribute old new False)
                                        (zip (replacedArgs w) (newArgs w)) g2\<rparr>)))"

section \<open>NormalizationIntegralUnfolder\<close>

text \<open>
  Modelled from the spec: the constructor of \<^verbatim>\<open>RooAddition\<close> is not part of the sources
  at hand.  The aggregator is a new node that is not a pdf, has the top node as its
  only server, a value server, and hands its own normalization set on unchanged.
\<close>

definition RooAddition :: "node \<Rightarrow> graph \<Rightarrow> node \<times> graph" where
  "RooAddition topNode g =
     (let n = fresh g in
      (n, g\<lparr>live := live g @ [n],
            servers := (servers g)(n := [topNode]),
            attribs := (attribs g)(n := {}),
            isDerived := (isDerived g)(n := True),
            isFundamental := (isFundamental g)(n := False),
            isPdf := (isPdf g)(n := False),
            isCachedPdf := (isCachedPdf g)(n := False),
            selfNormalized := (selfNormalized g)(n := False),
            isValueServer := (isValueServer g)(topNode := (isValueServer g topNode)(n := True)),
            fillNormSetForServer := (fillNormSetForServer g)(n := (\<lambda>normSet server. None))\<rparr>))"

record unfolder =
  u_world :: world
  topNodeWrapper :: node
  normSetWasEmpty :: bool
  ownedComponents :: "node list"
  u_arg :: "node option"

definition NormalizationIntegralUnfolder ::
  "nat \<Rightarrow> node \<Rightarrow> argset \<Rightarrow> graph \<Rightarrow> (error + unfolder) option" where
  "NormalizationIntegralUnfolder fuel topNode normSet g =
     (let (topNodeWrapper, g1) = RooAddition topNode g
      in case unfoldIntegrals fuel topNodeWrapper normSet
                \<lparr>graph = g1, w_normSets = [], replacedArgs = [], newArgs = [], getValCalls = []\<rparr> of
           None \<Rightarrow> None
         | Some (Inl e) \<Rightarrow> Some (Inl e)
         | Some (Inr (w, ownedArgs)) \<Rightarrow>
             Some (Inr \<lparr>u_world = w, topNodeWrapper = topNodeWrapper,
                        normSetWasEmpty = (normSet = []),
                        ownedComponents = ownedArgs,
                        u_arg = (case servers (graph w) topNodeWrapper of
                                 [] \<Rightarrow> None | a # _ \<Rightarrow> Some a)\<rparr>))"

text \<open>The body of the destructor.\<close>

definition destructor :: "nat \<Rightarrow> unfolder \<Rightarrow> (fold_error + unfolder) option" where
  "destructor fuel u =
     (if normSetWasEmpty u then Some (Inr u)
      else
        case foldIntegrals fuel (topNodeWrapper u) (u_world u) of
          None \<Rightarrow> None
        | Some (Inl e) \<Rightarrow> Some (Inl e)
        | Some (Inr w) \<Rightarrow> Some (Inr (u\<lparr>u_world := w\<lparr>w_normSets := []\<rparr>\<rparr>)))"


section \<open>Vocabulary of the properties\<close>

text \<open>
  The edges of a table of server lists and of a graph, reachability along them, a table
  whose servers are all keys, a memo table that holds only correct answers, and
  acyclicity, witnessed by a rank that falls along every edge, of the whole graph or of
  the part reached from a node.
\<close>

definition edges :: "(node \<rightharpoonup> node list) \<Rightarrow> (node \<times> node) set" where
  "edges sl = {(a, s). \<exists>l. sl a = Some l \<and> s \<in> set l}"

definition memo_ok :: "(node \<rightharpoonup> node list) \<Rightarrow> (node \<times> node \<rightharpoonup> bool) \<Rightarrow> bool" where
  "memo_ok sl m = (\<forall>a b v. m (a, b) = Some v \<longrightarrow> v = ((a, b) \<in> (edges sl)\<^sup>*))"

definition closed :: "(node \<rightharpoonup> node list) \<Rightarrow> bool" where
  "closed sl = (\<forall>a l s. sl a = Some l \<longrightarrow> s \<in> set l \<longrightarrow> sl s \<noteq> None)"

definition ranked :: "(node \<rightharpoonup> node list) \<Rightarrow> (node \<Rightarrow> nat) \<Rightarrow> bool" where
  "ranked sl rank = (\<forall>a l s. sl a = Some l \<longrightarrow> s \<in> set l \<longrightarrow> rank s < rank a)"

definition gedges :: "graph \<Rightarrow> (node \<times> node) set" where
  "gedges g = {(a, s). s \<in> set (servers g a)}"

definition acyclic_by :: "graph \<Rightarrow> (node \<Rightarrow> nat) \<Rightarrow> bool" where
  "acyclic_by g rank = (\<forall>n s. s \<in> set (servers g n) \<longrightarrow> rank s < rank n)"

definition ranked_from :: "graph \<Rightarrow> (node \<Rightarrow> nat) \<Rightarrow> node \<Rightarrow> bool" where
  "ranked_from g rank a =
     (\<forall>n\<in>(gedges g)\<^sup>* `` {a}. \<forall>s\<in>set (servers g n). rank s < rank n)"

definition once_inv :: "graph \<Rightarrow> propagation \<Rightarrow> bool" where
  "once_inv g st = (\<forall>n. isPdf g n \<longrightarrow> count_list (entered st) n \<le> 1
                       \<and> (n \<in> set (entered st) \<longrightarrow> map_of (normSets st) n \<noteq> None))"

definition all_sorted :: "propagation \<Rightarrow> bool" where
  "all_sorted st = (\<forall>(k, s)\<in>set (normSets st). sorted s)"

definition conflict_report :: "error \<Rightarrow> bool" where
  "conflict_report e =
     (\<exists>server demanded parent recorded.
        e = RuntimeError (conflictMessage server demanded parent recorded)
        \<and> demanded \<noteq> recorded \<and> sorted demanded \<and> sorted recorded)"

definition subst1 :: "node \<Rightarrow> node \<Rightarrow> node \<Rightarrow> node" where
  "subst1 old new s = (if s = old then new else s)"

definition wrap_step :: "argset \<Rightarrow> node \<Rightarrow> argset \<Rightarrow> world \<Rightarrow> world" where
  "wrap_step nodes node s w =
     replaceArg nodes (fresh (graph w)) node
       (w\<lparr>getValCalls := getValCalls w @ [(node, s)],
          graph := snd (RooNormalizedPdf node s (graph w))\<rparr>)"

definition getVal_due :: "world \<Rightarrow> node list \<Rightarrow> (node \<times> argset) set" where
  "getVal_due w ns =
     {(n, s). n \<in> set ns \<and> isPdf (graph w) n \<and> map_of (w_normSets w) n = Some s \<and> s \<noteq> []}"

definition visited_inv :: "graph \<Rightarrow> node \<Rightarrow> propagation \<Rightarrow> bool" where
  "visited_inv g topNode st =
     (distinct (map fst (normSets st)) \<and> distinct (p_list st)
      \<and> fst ` set (normSets st) \<subseteq> set (p_list st)
      \<and> set (p_list st) \<subseteq> (gedges g)\<^sup>* `` {topNode})"

definition narrowed :: "graph \<Rightarrow> node \<Rightarrow> argset \<Rightarrow> argset" where
  "narrowed g key s = foldl add_silent [] (filter (\<lambda>v. (key, v) \<in> (gedges g)\<^sup>*) s)"

definition checker_for :: "graph \<Rightarrow> node \<Rightarrow> checker \<Rightarrow> bool" where
  "checker_for g topNode ck =
     (serverLists ck = (\<lambda>n. if n \<in> (gedges g)\<^sup>* `` {topNode}
                             then Some (sort_unique (servers g n)) else None)
      \<and> memo_ok (serverLists ck) (results ck))"

text \<open>
  The replacement that a ledger of replaced and new nodes stands for: a node of the
  first list goes to the node at the same place of the second, every other node to
  itself.
\<close>

definition fwd :: "node list \<Rightarrow> node list \<Rightarrow> node \<Rightarrow> node" where
  "fwd ps ws s = (case map_of (zip ps ws) s of Some w \<Rightarrow> w | None \<Rightarrow> s)"


text \<open>
  A graph whose live nodes have live servers only, with a rank that falls along every
  edge between them.
\<close>

definition wf_graph :: "graph \<Rightarrow> (node \<Rightarrow> nat) \<Rightarrow> bool" where
  "wf_graph g rank =
     (\<forall>n\<in>set (live g). \<forall>s\<in>set (servers g n). s \<in> set (live g) \<and> rank s < rank n)"


text \<open>
  The places that a call of \<^verbatim>\<open>treeNodeServerListAndNormSets\<close> comes to.
  \<open>at_server g fuel arg normSet st parent pns server st'\<close> says that the call for \<open>arg\<close>
  with the set \<open>normSet\<close> in the state \<open>st\<close> comes, in the loop over the servers of the
  node \<open>parent\<close>, itself called with the set \<open>pns\<close>, to the server \<open>server\<close>, and is
  in the state \<open>st'\<close> there.  That is in the loop of \<open>arg\<close> itself, once the servers
  before it have been dealt with, or in the call that this loop makes for one of the
  servers of \<open>arg\<close>.
\<close>

inductive at_server ::
  "graph \<Rightarrow> nat \<Rightarrow> node \<Rightarrow> argset \<Rightarrow> propagation \<Rightarrow> node \<Rightarrow> argset \<Rightarrow> node \<Rightarrow> propagation \<Rightarrow> bool"
  for g :: graph where
  here:
    "map_of (normSets st) arg = None \<Longrightarrow> isDerived g arg \<and> \<not> isFundamental g arg \<Longrightarrow>
     servers g arg = pre @ server # rest \<Longrightarrow>
     propagate_servers (treeNodeServerListAndNormSets fuel g) g arg normSet pre
       (visit g arg normSet st) = Some (Inr st1) \<Longrightarrow>
     at_server g (Suc fuel) arg normSet st arg normSet server st1"
| below:
    "map_of (normSets st) arg = None \<Longrightarrow> isDerived g arg \<and> \<not> isFundamental g arg \<Longrightarrow>
     servers g arg = pre @ server # rest \<Longrightarrow>
     propagate_servers (treeNodeServerListAndNormSets fuel g) g arg normSet pre
       (visit g arg normSet st) = Some (Inr st1) \<Longrightarrow>
     isValueServer g server arg \<Longrightarrow> map_of (normSets st1) server = None \<Longrightarrow>
     at_server g fuel server (serverNormSet g arg normSet server) st1 parent pns s st2 \<Longrightarrow>
     at_server g (Suc fuel) arg normSet st parent pns s st2"

text \<open>
  The call comes to a value server whose recorded normalization set has another size or
  another content than the set demanded for it, and \<open>e\<close> is the error thrown there.
\<close>

definition conflict_at ::
  "graph \<Rightarrow> nat \<Rightarrow> node \<Rightarrow> argset \<Rightarrow> propagation \<Rightarrow> error \<Rightarrow> bool" where
  "conflict_at g fuel arg normSet st e =
     (\<exists>parent pns server st' found.
        at_server g fuel arg normSet st parent pns server st'
        \<and> isValueServer g server parent
        \<and> map_of (normSets st') server = Some found
        \<and> (length found \<noteq> length (serverNormSet g parent pns server)
             \<or> \<not> hasSameLayout (serverNormSet g parent pns server) found)
        \<and> e = RuntimeError (conflictMessage server (serverNormSet g parent pns server) parent found))"


section \<open>Example graphs\<close>

text \<open>
  A graph given by its server lists and its pdfs alone: every node is derived exactly
  when it has servers, every server is a value server, and no node overrides the
  normalization set of a server.
\<close>

definition plain_graph :: "node list \<Rightarrow> (node \<Rightarrow> node list) \<Rightarrow> (node \<Rightarrow> bool) \<Rightarrow> graph" where
  "plain_graph ns srv pdf =
     \<lparr>live = ns, servers = srv, attribs = (\<lambda>n. {}),
      isDerived = (\<lambda>n. srv n \<noteq> []), isFundamental = (\<lambda>n. srv n = []),
      isPdf = pdf, isCachedPdf = (\<lambda>n. False), selfNormalized = (\<lambda>n. False),
      isValueServer = (\<lambda>server arg. True),
      fillNormSetForServer = (\<lambda>arg normSet server. None),
      wrapped = Map.empty\<rparr>"

text \<open>The diamond: node 0 has the servers 1 and 2, and both have the server 3.\<close>

definition diamond_servers :: "node \<Rightarrow> node list" where
  "diamond_servers n = (if n = 0 then [1, 2] else if n = 1 \<or> n = 2 then [3] else [])"

definition diamond :: graph where
  "diamond = plain_graph [0, 1, 2, 3] diamond_servers (\<lambda>n. False)"

definition diamond_checker :: checker where
  "diamond_checker =
     \<lparr>serverLists = (\<lambda>n. if n \<in> {0, 1, 2, 3} then Some (diamond_servers n) else None),
      results = Map.empty\<rparr>"

text \<open>
  Two pdfs, 1 and 2, under the top node 0 share the function 3, which is no pdf and has
  the variable 4 as its server.
\<close>

definition shared_servers :: "node \<Rightarrow> node list" where
  "shared_servers n =
     (if n = 0 then [1, 2] else if n = 1 \<or> n = 2 then [3] else if n = 3 then [4] else [])"

definition shared :: graph where
  "shared = plain_graph [0, 1, 2, 3, 4] shared_servers (\<lambda>n. n = 1 \<or> n = 2)"

text \<open>
  A conflict: the pdfs 1 and 2 under the top node 0 share the pdf 3 over the variables 4
  and 5, and the pdf 2 supplies the set of the variable 5 for its server 3.
\<close>

definition conflict_servers :: "node \<Rightarrow> node list" where
  "conflict_servers n =
     (if n = 0 then [1, 2] else if n = 1 \<or> n = 2 then [3] else if n = 3 then [4, 5] else [])"

definition conflict :: graph where
  "conflict =
     (plain_graph [0, 1, 2, 3, 4, 5] conflict_servers (\<lambda>n. n = 1 \<or> n = 2 \<or> n = 3))
       \<lparr>fillNormSetForServer :=
          (\<lambda>arg normSet server. if arg = 2 \<and> server = 3 then Some [5] else None)\<rparr>"

text \<open>
  Client scoping: the pdf 1 over the variable 2 is a server of the top node 0, of the
  cached pdf 4, itself a server of the top node, and of the node 3, which is not part
  of the graph under the top node.
\<close>

definition scoping_servers :: "node \<Rightarrow> node list" where
  "scoping_servers n =
     (if n = 0 then [1, 4] else if n = 1 then [2] else if n = 3 \<or> n = 4 then [1] else [])"

definition scoping :: graph where
  "scoping =
     (plain_graph [0, 1, 2, 3, 4] scoping_servers (\<lambda>n. n = 1 \<or> n = 4))
       \<lparr>isCachedPdf := (\<lambda>n. n = 4), selfNormalized := (\<lambda>n. n = 4)\<rparr>"

text \<open>A self-normalized pdf 0 over the variable 1.\<close>

definition selfnorm :: graph where
  "selfnorm =
     (plain_graph [0, 1] (\<lambda>n. if n = 0 then [1] else []) (\<lambda>n. n = 0))
       \<lparr>selfNormalized := (\<lambda>n. n = 0)\<rparr>"

text \<open>
  Narrowing: under the top node 0, the pdf 1 depends on the variable 3 only and the pdf
  2 on the variable 4 only.
\<close>

definition narrowing_servers :: "node \<Rightarrow> node list" where
  "narrowing_servers n =
     (if n = 0 then [1, 2] else if n = 1 then [3] else if n = 2 then [4] else [])"

definition narrowing :: graph where
  "narrowing = plain_graph [0, 1, 2, 3, 4] narrowing_servers (\<lambda>n. n = 1 \<or> n = 2)"

text \<open>
  Under the top node 0, the self-normalized pdf 1 and the pdf 2, both over the
  variable 3.
\<close>

definition mixed :: graph where
  "mixed =
     (plain_graph [0, 1, 2, 3] diamond_servers (\<lambda>n. n = 1 \<or> n = 2))
       \<lparr>selfNormalized := (\<lambda>n. n = 1)\<rparr>"

text \<open>
  As \<open>shared\<close>, with a pdf in the place of the shared function: the pdfs 1 and 2 under
  the top node 0 share the pdf 3 over the variable 4, and demand the same set for it.
\<close>

definition shared_pdf :: graph where
  "shared_pdf = plain_graph [0, 1, 2, 3, 4] shared_servers (\<lambda>n. n = 1 \<or> n = 2 \<or> n = 3)"

text \<open>
  A server that is no value server: the pdf 0 has the servers 1 and 2, and 2 is not a
  value server of it.
\<close>

definition shapeonly :: graph where
  "shapeonly =
     (plain_graph [0, 1, 2] (\<lambda>n. if n = 0 then [1, 2] else []) (\<lambda>n. n = 0))
       \<lparr>isValueServer := (\<lambda>server arg. \<not> (server = 2 \<and> arg = 0))\<rparr>"



section \<open>The reachability checker\<close>

lemma emplace_serverLists [simp]: "serverLists (emplace p v ck) = serverLists ck"
  by (simp add: emplace_def split: option.splits)

lemma memo_ok_emplace:
  "memo_ok sl (results ck) \<Longrightarrow> v = (p \<in> (edges sl)\<^sup>*) \<Longrightarrow> memo_ok sl (results (emplace p v ck))"
  by (cases p) (auto simp: memo_ok_def emplace_def split: option.splits)

lemma dependsOn_servers_sound:
  assumes rec: "\<And>ck s. s \<in> set rest \<Longrightarrow> serverLists ck = sl \<Longrightarrow> memo_ok sl (results ck) \<Longrightarrow>
            \<exists>ck'. rec ck s = Some (Inr ((s, b) \<in> (edges sl)\<^sup>*, ck')) \<and> serverLists ck' = sl
                  \<and> memo_ok sl (results ck')"
    and "serverLists ck = sl" "memo_ok sl (results ck)"
    and "((a, b) \<in> (edges sl)\<^sup>*) = (\<exists>s\<in>set rest. (s, b) \<in> (edges sl)\<^sup>*)"
  shows "\<exists>ck'. dependsOn_servers rec (a, b) b rest ck = Some (Inr ((a, b) \<in> (edges sl)\<^sup>*, ck'))
            \<and> serverLists ck' = sl \<and> memo_ok sl (results ck')"
  using assms
proof (induction rest arbitrary: ck)
  case Nil
  then show ?case by (simp add: memo_ok_emplace)
next
  case (Cons s rest)
  from Cons.prems(1)[of s ck] Cons.prems(2,3) obtain ck1 where
    r: "rec ck s = Some (Inr ((s, b) \<in> (edges sl)\<^sup>*, ck1))" and sl1: "serverLists ck1 = sl"
    and ok1: "memo_ok sl (results ck1)" by auto
  let ?ck2 = "emplace (s, b) ((s, b) \<in> (edges sl)\<^sup>*) ck1"
  have sl2: "serverLists ?ck2 = sl" and ok2: "memo_ok sl (results ?ck2)"
    using sl1 ok1 by (simp_all add: memo_ok_emplace)
  show ?case
  proof (cases "(s, b) \<in> (edges sl)\<^sup>*")
    case True
    with r sl2 ok2 Cons.prems(4) show ?thesis by auto
  next
    case False
    have "\<exists>ck'. dependsOn_servers rec (a, b) b rest ?ck2 = Some (Inr ((a, b) \<in> (edges sl)\<^sup>*, ck'))
            \<and> serverLists ck' = sl \<and> memo_ok sl (results ck')"
      using Cons.prems(1,4) sl2 ok2 False by (intro Cons.IH) auto
    with r False show ?thesis by simp
  qed
qed

lemma rtrancl_edges_step:
  "a \<noteq> b \<Longrightarrow> sl a = Some l \<Longrightarrow>
   ((a, b) \<in> (edges sl)\<^sup>*) = (\<exists>s\<in>set l. (s, b) \<in> (edges sl)\<^sup>*)"
proof
  assume "(a, b) \<in> (edges sl)\<^sup>*"
  then show "a \<noteq> b \<Longrightarrow> sl a = Some l \<Longrightarrow> \<exists>s\<in>set l. (s, b) \<in> (edges sl)\<^sup>*"
    by (induction rule: converse_rtrancl_induct) (auto simp: edges_def)
next
  assume "\<exists>s\<in>set l. (s, b) \<in> (edges sl)\<^sup>*" and "sl a = Some l"
  then obtain s where "(a, s) \<in> edges sl" "(s, b) \<in> (edges sl)\<^sup>*"
    by (auto simp: edges_def)
  then show "(a, b) \<in> (edges sl)\<^sup>*" by (rule converse_rtrancl_into_rtrancl)
qed

lemma dependsOn_sound:
  assumes "closed sl" "ranked sl rank"
  shows "serverLists ck = sl \<Longrightarrow> memo_ok sl (results ck) \<Longrightarrow> rank a < fuel \<Longrightarrow>
         sl a \<noteq> None \<Longrightarrow>
         \<exists>ck'. dependsOn fuel ck a b = Some (Inr ((a, b) \<in> (edges sl)\<^sup>*, ck'))
            \<and> serverLists ck' = sl \<and> memo_ok sl (results ck')"
proof (induction fuel arbitrary: ck a)
  case 0
  then show ?case by simp
next
  case (Suc fuel)
  show ?case
  proof (cases "results ck (a, b)")
    case (Some v)
    with Suc.prems show ?thesis by (auto simp: memo_ok_def)
  next
    case None
    show ?thesis
    proof (cases "a = b")
      case True
      with None Suc.prems show ?thesis by simp
    next
      case False
      from Suc.prems obtain l where l: "sl a = Some l" by auto
      show ?thesis
      proof (cases "b \<in> set l")
        case True
        then have "(a, b) \<in> (edges sl)\<^sup>*" using l by (auto simp: edges_def)
        with None False l True Suc.prems show ?thesis by (simp add: memo_ok_emplace)
      next
        case nd: False
        have rec: "\<exists>ck'. dependsOn fuel ck1 s b = Some (Inr ((s, b) \<in> (edges sl)\<^sup>*, ck'))
                  \<and> serverLists ck' = sl \<and> memo_ok sl (results ck')"
          if "s \<in> set l" "serverLists ck1 = sl" "memo_ok sl (results ck1)" for ck1 s
        proof -
          have "rank s < rank a" "sl s \<noteq> None"
            using assms l that(1) by (auto simp: closed_def ranked_def)
          with that Suc.prems(3) show ?thesis by (intro Suc.IH) auto
        qed
        have "\<exists>ck'. dependsOn_servers (\<lambda>ck' server. dependsOn fuel ck' server b) (a, b) b l ck
                  = Some (Inr ((a, b) \<in> (edges sl)\<^sup>*, ck'))
            \<and> serverLists ck' = sl \<and> memo_ok sl (results ck')"
          using rec Suc.prems(1,2) rtrancl_edges_step[of a b sl l, OF False l]
          by (intro dependsOn_servers_sound) auto
        with None False l nd Suc.prems(1) show ?thesis by simp
      qed
    qed
  qed
qed

lemma reach_unfold:
  "(gedges g)\<^sup>* `` {a} = {a} \<union> (\<Union>s\<in>set (servers g a). (gedges g)\<^sup>* `` {s})"
proof -
  have "(gedges g)\<^sup>* `` {a} = {a} \<union> (gedges g)\<^sup>* `` (gedges g `` {a})"
    by (auto elim: converse_rtranclE intro: converse_rtrancl_into_rtrancl)
  also have "gedges g `` {a} = set (servers g a)" by (auto simp: gedges_def)
  finally show ?thesis by auto
qed

lemma foldOpt_tnsl:
  assumes "\<And>list s. s \<in> set ss \<Longrightarrow>
             \<exists>list'. f list s = Some list' \<and> set list' = set list \<union> (gedges g)\<^sup>* `` {s}"
  shows "\<exists>list'. foldOpt f ss list = Some list'
           \<and> set list' = set list \<union> (\<Union>s\<in>set ss. (gedges g)\<^sup>* `` {s})"
  using assms
proof (induction ss arbitrary: list)
  case Nil
  then show ?case by simp
next
  case (Cons s ss)
  from Cons.prems[of s list] obtain l1 where
    l1: "f list s = Some l1" "set l1 = set list \<union> (gedges g)\<^sup>* `` {s}" by auto
  from Cons.IH[of l1] Cons.prems obtain l2 where
    "foldOpt f ss l1 = Some l2" "set l2 = set l1 \<union> (\<Union>s\<in>set ss. (gedges g)\<^sup>* `` {s})"
    by auto
  with l1 show ?case by auto
qed

lemma ranked_from_acyclic: "acyclic_by g rank \<Longrightarrow> ranked_from g rank a"
  by (simp add: acyclic_by_def ranked_from_def)

lemma ranked_from_server:
  assumes "ranked_from g rank a" "s \<in> set (servers g a)"
  shows "ranked_from g rank s" "rank s < rank a"
proof -
  have "(a, s) \<in> gedges g" using assms(2) by (simp add: gedges_def)
  then have "(gedges g)\<^sup>* `` {s} \<subseteq> (gedges g)\<^sup>* `` {a}"
    by (auto intro: converse_rtrancl_into_rtrancl)
  with assms(1) show "ranked_from g rank s" by (auto simp: ranked_from_def)
  from assms show "rank s < rank a" by (auto simp: ranked_from_def)
qed

lemma treeNodeServerList_all:
  "ranked_from g rank arg \<Longrightarrow> rank arg < fuel \<Longrightarrow>
         \<exists>list'. treeNodeServerList fuel g False list arg = Some list'
            \<and> set list' = set list \<union> (gedges g)\<^sup>* `` {arg}"
proof (induction fuel arbitrary: list arg)
  case 0
  then show ?case by simp
next
  case (Suc fuel)
  have "\<exists>list'. foldOpt (\<lambda>list' server. if False \<and> \<not> isValueServer g server arg then Some list'
                   else treeNodeServerList fuel g False list' server) (servers g arg) (list @ [arg])
              = Some list'
           \<and> set list' = set (list @ [arg]) \<union> (\<Union>s\<in>set (servers g arg). (gedges g)\<^sup>* `` {s})"
  proof (rule foldOpt_tnsl)
    fix l s assume "s \<in> set (servers g arg)"
    from ranked_from_server[OF Suc.prems(1) this] Suc.prems(2)
    have "ranked_from g rank s" "rank s < fuel" by auto
    from Suc.IH[OF this, of l]
    show "\<exists>list'. (if False \<and> \<not> isValueServer g s arg then Some l
                   else treeNodeServerList fuel g False l s) = Some list'
              \<and> set list' = set l \<union> (gedges g)\<^sup>* `` {s}" by simp
  qed
  then show ?case using reach_unfold[of g arg] by auto
qed

lemma set_foldl_add_silent: "set (foldl add_silent acc xs) = set acc \<union> set xs"
  by (induction xs arbitrary: acc) (auto simp: add_silent_def)

lemma distinct_foldl_add_silent: "distinct acc \<Longrightarrow> distinct (foldl add_silent acc xs)"
  by (induction xs arbitrary: acc) (auto simp: add_silent_def)

lemma foldl_push_back_servers:
  "distinct xs \<Longrightarrow> \<forall>x\<in>set xs. m x = None \<Longrightarrow>
   foldl (push_back_servers g) m xs n = (if n \<in> set xs then Some (servers g n) else m n)"
proof (induction xs arbitrary: m)
  case Nil
  then show ?case by simp
next
  case (Cons x xs)
  have step: "push_back_servers g m x = m(x \<mapsto> servers g x)"
    using Cons.prems by (simp add: push_back_servers_def)
  have "foldl (push_back_servers g) (m(x \<mapsto> servers g x)) xs n
        = (if n \<in> set xs then Some (servers g n) else (m(x \<mapsto> servers g x)) n)"
    using Cons.prems by (intro Cons.IH) auto
  with Cons.prems show ?case by (auto simp: step)
qed

lemma set_sort_unique [simp]: "set (sort_unique l) = set l"
  by (simp add: sort_unique_def)

lemma GraphChecker_serverLists:
  assumes "ranked_from g rank topNode" "rank topNode < fuel"
  shows "\<exists>ck. GraphChecker fuel g topNode = Some ck \<and> results ck = Map.empty
           \<and> serverLists ck = (\<lambda>n. if n \<in> (gedges g)\<^sup>* `` {topNode}
                                   then Some (sort_unique (servers g n)) else None)"
proof -
  from treeNodeServerList_all[OF assms, of "[]"] obtain nodes where
    n: "treeNodeServerList fuel g False [] topNode = Some nodes"
       "set nodes = (gedges g)\<^sup>* `` {topNode}" by auto
  let ?ns = "foldl add_silent [] nodes"
  have "distinct ?ns" "set ?ns = set nodes"
    by (simp_all add: distinct_foldl_add_silent set_foldl_add_silent)
  then have "foldl (push_back_servers g) Map.empty ?ns n
        = (if n \<in> set nodes then Some (servers g n) else None)" for n
    using foldl_push_back_servers[of ?ns Map.empty g n] by simp
  with n show ?thesis by (auto simp: GraphChecker_def Let_def fun_eq_iff)
qed

lemma closed_reach:
  "closed (\<lambda>n. if n \<in> (gedges g)\<^sup>* `` {t} then Some (sort_unique (servers g n)) else None)"
  by (auto simp: closed_def gedges_def split: if_splits intro: rtrancl_into_rtrancl)

lemma ranked_reach:
  "ranked_from g rank t \<Longrightarrow>
   ranked (\<lambda>n. if n \<in> (gedges g)\<^sup>* `` {t} then Some (sort_unique (servers g n)) else None) rank"
  by (auto simp: ranked_def ranked_from_def split: if_splits)

section \<open>Claims about the reachability checker\<close>

subsection \<open>The diamond graph\<close>


lemma diamond_tnsl: "treeNodeServerList 4 diamond False [] 0 = Some [0,1,3,2,3]"
  by (simp add: eval_nat_numeral diamond_def plain_graph_def diamond_servers_def)

lemma diamond_GraphChecker: "GraphChecker 4 diamond 0 = Some diamond_checker"
  apply (simp add: GraphChecker_def diamond_tnsl add_silent_def Let_def diamond_checker_def)
  apply (rule ext)
  apply (simp add: push_back_servers_def diamond_def plain_graph_def diamond_servers_def sort_unique_def)
  done

lemma diamond_closed: "closed (serverLists diamond_checker)"
  by (auto simp: closed_def diamond_checker_def diamond_servers_def split: if_splits)

lemma diamond_ranked: "ranked (serverLists diamond_checker) (\<lambda>n. 3 - n)"
  by (auto simp: ranked_def diamond_checker_def diamond_servers_def split: if_splits)

lemma diamond_acyclic: "acyclic_by diamond (\<lambda>n. 3 - n)"
  by (auto simp: acyclic_by_def diamond_def plain_graph_def diamond_servers_def split: if_splits)

lemma d03: "\<exists>ck'. dependsOn 4 diamond_checker 0 3 = Some (Inr (True, ck'))"
  by (simp add: eval_nat_numeral diamond_checker_def diamond_servers_def emplace_def)

lemma d30: "\<exists>ck'. dependsOn 4 diamond_checker 3 0 = Some (Inr (False, ck'))"
  by (simp add: eval_nat_numeral diamond_checker_def diamond_servers_def emplace_def)

text \<open>
  C5.  On a checker whose table of server lists is acyclic and lists only keys, and whose
  memo table holds only correct answers (as the empty table does, and as every call
  leaves it), \<open>dependsOn A B\<close> for a key \<open>A\<close> returns \<open>True\<close> exactly when \<open>A = B\<close>
  or \<open>B\<close> is reached from \<open>A\<close> along server edges.
\<close>

theorem dependsOn_iff_reachable:
  assumes "closed (serverLists ck)" and "ranked (serverLists ck) rank"
    and "memo_ok (serverLists ck) (results ck)"
    and "serverLists ck A \<noteq> None" and "rank A < fuel"
  shows "\<exists>ck'. dependsOn fuel ck A B
           = Some (Inr (A = B \<or> (A, B) \<in> (edges (serverLists ck))\<^sup>*, ck'))
         \<and> serverLists ck' = serverLists ck \<and> memo_ok (serverLists ck) (results ck')"
  using dependsOn_sound[OF assms(1,2) refl assms(3,5,4), of B]
  by auto

text \<open>
  The diamond: node 0 depends on node 3, and node 3 does not depend on node 0.
\<close>

theorem dependsOn_iff_reachable_witness:
  "closed (serverLists diamond_checker) \<and> ranked (serverLists diamond_checker) (\<lambda>n. 3 - n)
   \<and> memo_ok (serverLists diamond_checker) (results diamond_checker)
   \<and> (\<exists>ck'. dependsOn 4 diamond_checker 0 3 = Some (Inr (True, ck')))
   \<and> (\<exists>ck'. dependsOn 4 diamond_checker 3 0 = Some (Inr (False, ck')))
   \<and> (0, 3) \<in> (edges (serverLists diamond_checker))\<^sup>*
   \<and> (3, 0) \<notin> (edges (serverLists diamond_checker))\<^sup>*"
proof -
  have c: "closed (serverLists diamond_checker)" by (rule diamond_closed)
  have r: "ranked (serverLists diamond_checker) (\<lambda>n. 3 - n)" by (rule diamond_ranked)
  have m: "memo_ok (serverLists diamond_checker) (results diamond_checker)"
    by (simp add: memo_ok_def diamond_checker_def)
  have k0: "serverLists diamond_checker 0 \<noteq> None" and k3: "serverLists diamond_checker 3 \<noteq> None"
    by (simp_all add: diamond_checker_def)
  from dependsOn_iff_reachable[OF c r m k0, of 4 3] d03
  have a: "(0, 3) \<in> (edges (serverLists diamond_checker))\<^sup>*" by auto
  from dependsOn_iff_reachable[OF c r m k3, of 4 0] d30
  have b: "(3, 0) \<notin> (edges (serverLists diamond_checker))\<^sup>*" by auto
  from c r m d03 d30 a b show ?thesis by blast
qed

text \<open>
  C10.  The table built by the constructor of the checker for an acyclic graph lists
  only keys, so that every call of \<open>dependsOn\<close> on a key returns an answer, never the
  exception of the lookup, whatever correct memo table earlier calls have left.
\<close>

theorem GraphChecker_lookups_succeed:
  assumes "acyclic_by g rank" and "rank topNode < fuel"
  shows "\<exists>ck. GraphChecker fuel g topNode = Some ck \<and> closed (serverLists ck)
           \<and> memo_ok (serverLists ck) (results ck)
           \<and> (\<forall>ck' A B. serverLists ck' = serverLists ck \<longrightarrow>
                 memo_ok (serverLists ck) (results ck') \<longrightarrow> serverLists ck A \<noteq> None \<longrightarrow>
                 (\<exists>t ck''. dependsOn fuel ck' A B = Some (Inr (t, ck''))
                     \<and> serverLists ck'' = serverLists ck
                     \<and> memo_ok (serverLists ck) (results ck'')))"
proof -
  note rf = ranked_from_acyclic[OF assms(1), of topNode]
  from GraphChecker_serverLists[OF rf assms(2)] obtain ck where
    ck: "GraphChecker fuel g topNode = Some ck" "results ck = Map.empty"
        "serverLists ck = (\<lambda>n. if n \<in> (gedges g)\<^sup>* `` {topNode}
                                   then Some (sort_unique (servers g n)) else None)"
    by auto
  have c: "closed (serverLists ck)" and r: "ranked (serverLists ck) rank"
    using ck(3) closed_reach ranked_reach[OF rf] by simp_all
  have m: "memo_ok (serverLists ck) (results ck)" using ck(2) by (simp add: memo_ok_def)
  have "\<exists>t ck''. dependsOn fuel ck' A B = Some (Inr (t, ck''))
                     \<and> serverLists ck'' = serverLists ck
                     \<and> memo_ok (serverLists ck) (results ck'')"
    if "serverLists ck' = serverLists ck" "memo_ok (serverLists ck) (results ck')"
       "serverLists ck A \<noteq> None" for ck' A B
  proof -
    have "rank A < fuel"
    proof -
      from that(3) ck(3) have "(topNode, A) \<in> (gedges g)\<^sup>*" by (auto split: if_splits)
      then have "rank A \<le> rank topNode"
        by (induction rule: rtrancl_induct) (use assms(1) in \<open>fastforce simp: acyclic_by_def gedges_def\<close>)+
      with assms(2) show ?thesis by simp
    qed
    from dependsOn_sound[OF c r that(1,2) this that(3), of B] show ?thesis by blast
  qed
  with ck(1) c m show ?thesis by blast
qed

text \<open>
  The checker of the diamond: its table lists only keys, and the call for the nodes 2
  and 3 returns an answer.
\<close>

theorem GraphChecker_lookups_succeed_witness:
  "acyclic_by diamond (\<lambda>n. 3 - n) \<and> GraphChecker 4 diamond 0 = Some diamond_checker
   \<and> closed (serverLists diamond_checker)
   \<and> (\<exists>t ck''. dependsOn 4 diamond_checker 2 3 = Some (Inr (t, ck'')))"
proof -
  have m: "memo_ok (serverLists diamond_checker) (results diamond_checker)"
    by (simp add: memo_ok_def diamond_checker_def)
  have k: "serverLists diamond_checker 2 \<noteq> None" by (simp add: diamond_checker_def)
  from GraphChecker_lookups_succeed[OF diamond_acyclic, of 0 4]
  have "closed (serverLists diamond_checker)
        \<and> (\<forall>ck' A B. serverLists ck' = serverLists diamond_checker \<longrightarrow>
                 memo_ok (serverLists diamond_checker) (results ck') \<longrightarrow>
                 serverLists diamond_checker A \<noteq> None \<longrightarrow>
                 (\<exists>t ck''. dependsOn 4 ck' A B = Some (Inr (t, ck''))
                     \<and> serverLists ck'' = serverLists diamond_checker
                     \<and> memo_ok (serverLists diamond_checker) (results ck'')))"
    by (simp add: diamond_GraphChecker)
  with m k diamond_acyclic diamond_GraphChecker show ?thesis by blast
qed

section \<open>Propagation of the normalization sets: invariants\<close>

lemma propagate_servers_rule:
  assumes rec: "\<And>server normSet st. I st \<Longrightarrow> Q server normSet \<Longrightarrow>
            (case rec server normSet st of None \<Rightarrow> True | Some (Inl e) \<Rightarrow> E e | Some (Inr st') \<Rightarrow> I st')"
    and sns: "\<And>server. server \<in> set ss \<Longrightarrow> isValueServer g server arg \<Longrightarrow>
            Q server (serverNormSet g arg normSet server)"
    and err: "\<And>server st found. I st \<Longrightarrow> isValueServer g server arg \<Longrightarrow>
            map_of (normSets st) server = Some found \<Longrightarrow>
            length found \<noteq> length (serverNormSet g arg normSet server)
              \<or> \<not> hasSameLayout (serverNormSet g arg normSet server) found \<Longrightarrow>
            E (RuntimeError (conflictMessage server (serverNormSet g arg normSet server) arg found))"
  shows "I st \<Longrightarrow>
         (case propagate_servers rec g arg normSet ss st of
            None \<Rightarrow> True | Some (Inl e) \<Rightarrow> E e | Some (Inr st') \<Rightarrow> I st')"
  using sns
proof (induction ss arbitrary: st)
  case Nil
  then show ?case by simp
next
  case (Cons server rest)
  have IH: "I st1 \<Longrightarrow> (case propagate_servers rec g arg normSet rest st1 of
            None \<Rightarrow> True | Some (Inl e) \<Rightarrow> E e | Some (Inr st') \<Rightarrow> I st')" for st1
    using Cons.prems(2) by (intro Cons.IH) auto
  show ?case
  proof (cases "isValueServer g server arg")
    case False
    with IH[OF Cons.prems(1)] show ?thesis by simp
  next
    case True
    let ?sns = "serverNormSet g arg normSet server"
    have q: "Q server ?sns" using Cons.prems(2)[of server] True by simp
    show ?thesis
    proof (cases "map_of (normSets st) server")
      case (Some found)
      show ?thesis
      proof (cases "length found \<noteq> length ?sns \<or> \<not> hasSameLayout ?sns found")
        case bad: True
        from err[OF Cons.prems(1) True Some bad] True Some bad show ?thesis
          by (simp add: Let_def)
      next
        case False
        with True Some IH[OF Cons.prems(1)] show ?thesis by (simp add: Let_def)
      qed
    next
      case None
      have r: "case rec server ?sns st of
                 None \<Rightarrow> True | Some (Inl e) \<Rightarrow> E e | Some (Inr st') \<Rightarrow> I st'"
        by (rule rec[OF Cons.prems(1) q])
      show ?thesis
      proof (cases "rec server ?sns st")
        case n: None
        with True None show ?thesis by (simp add: Let_def)
      next
        case (Some r')
        show ?thesis
        proof (cases r')
          case (Inl e)
          with Some True None r show ?thesis by (simp add: Let_def)
        next
          case (Inr st1)
          with Some r have "I st1" by simp
          from IH[OF this] Inr Some True None
          show ?thesis by (simp add: Let_def)
        qed
      qed
    qed
  qed
qed

lemma propagation_rule:
  assumes visit: "\<And>arg normSet st. I st \<Longrightarrow> Q arg normSet \<Longrightarrow> map_of (normSets st) arg = None \<Longrightarrow>
            I (visit g arg normSet st)"
    and sns: "\<And>arg normSet server. Q arg normSet \<Longrightarrow> server \<in> set (servers g arg) \<Longrightarrow>
            isValueServer g server arg \<Longrightarrow> Q server (serverNormSet g arg normSet server)"
    and err: "\<And>arg normSet server st found. I st \<Longrightarrow> Q arg normSet \<Longrightarrow>
            isValueServer g server arg \<Longrightarrow>
            map_of (normSets st) server = Some found \<Longrightarrow>
            length found \<noteq> length (serverNormSet g arg normSet server)
              \<or> \<not> hasSameLayout (serverNormSet g arg normSet server) found \<Longrightarrow>
            E (RuntimeError (conflictMessage server (serverNormSet g arg normSet server) arg found))"
  shows "I st \<Longrightarrow> Q arg normSet \<Longrightarrow>
         (case treeNodeServerListAndNormSets fuel g arg normSet st of
            None \<Rightarrow> True | Some (Inl e) \<Rightarrow> E e | Some (Inr st') \<Rightarrow> I st')"
proof (induction fuel arbitrary: arg normSet st)
  case 0
  then show ?case by simp
next
  case (Suc fuel)
  show ?case
  proof (cases "map_of (normSets st) arg")
    case (Some a)
    with Suc.prems show ?thesis by simp
  next
    case None
    have v: "I (visit g arg normSet st)" using visit[OF Suc.prems None] .
    show ?thesis
    proof (cases "isDerived g arg \<and> \<not> isFundamental g arg")
      case False
      with None v show ?thesis by (auto simp: Let_def)
    next
      case True
      have "case propagate_servers (treeNodeServerListAndNormSets fuel g) g arg normSet
                   (servers g arg) (visit g arg normSet st) of
              None \<Rightarrow> True | Some (Inl e) \<Rightarrow> E e | Some (Inr st') \<Rightarrow> I st'"
      proof (rule propagate_servers_rule[where I = I and Q = Q])
        show "\<And>server normSet st. I st \<Longrightarrow> Q server normSet \<Longrightarrow>
                case treeNodeServerListAndNormSets fuel g server normSet st of
                  None \<Rightarrow> True | Some (Inl e) \<Rightarrow> E e | Some (Inr st') \<Rightarrow> I st'"
          by (rule Suc.IH)
        show "\<And>server. server \<in> set (servers g arg) \<Longrightarrow> isValueServer g server arg \<Longrightarrow>
                Q server (serverNormSet g arg normSet server)"
          by (rule sns[OF Suc.prems(2)])
        show "\<And>server st found. I st \<Longrightarrow> isValueServer g server arg \<Longrightarrow>
            map_of (normSets st) server = Some found \<Longrightarrow>
            length found \<noteq> length (serverNormSet g arg normSet server)
              \<or> \<not> hasSameLayout (serverNormSet g arg normSet server) found \<Longrightarrow>
            E (RuntimeError (conflictMessage server (serverNormSet g arg normSet server) arg found))"
          by (rule err[OF _ Suc.prems(2)])
        show "I (visit g arg normSet st)" by (rule v)
      qed
      with None True show ?thesis by (simp add: Let_def)
    qed
  qed
qed

lemma count_list_snoc: "count_list (xs @ [a]) n = count_list xs n + (if n = a then 1 else 0)"
  by (induction xs) auto

lemma once_inv_visit:
  assumes "once_inv g st" "map_of (normSets st) arg = None"
  shows "once_inv g (visit g arg normSet st)"
  unfolding once_inv_def
proof (intro allI impI)
  fix n assume p: "isPdf g n"
  with assms have c: "count_list (entered st) n \<le> 1"
    and e: "n \<in> set (entered st) \<longrightarrow> map_of (normSets st) n \<noteq> None"
    by (auto simp: once_inv_def)
  show "count_list (entered (visit g arg normSet st)) n \<le> 1 \<and>
        (n \<in> set (entered (visit g arg normSet st)) \<longrightarrow>
           map_of (normSets (visit g arg normSet st)) n \<noteq> None)"
  proof (cases "n = arg")
    case True
    with e assms(2) have "arg \<notin> set (entered st)" by auto
    then have "count_list (entered st) arg = 0" by (simp add: count_list_0_iff)
    with True p show ?thesis by (simp add: visit_def Let_def count_list_snoc)
  next
    case False
    with c e show ?thesis by (auto simp: visit_def Let_def count_list_snoc)
  qed
qed

lemma shared_run:
  "treeNodeServerListAndNormSets 4 shared 0 [4] \<lparr>p_list = [], normSets = [], entered = []\<rparr>
   = Some (Inr \<lparr>p_list = [0, 1, 3, 4, 2], normSets = [(1, [4]), (2, [4])],
                entered = [0, 1, 3, 4, 2, 3, 4]\<rparr>)"
  by (simp add: eval_nat_numeral shared_def plain_graph_def shared_servers_def visit_def
      add_silent_def serverNormSet_def Let_def)

text \<open>
  C9 as stated fails for a node that is no pdf: in the graph \<open>shared\<close> the function 3,
  a server of the pdfs 1 and 2, is entered twice, and so is its server 4.
\<close>

theorem visit_once_counterexample:
  "treeNodeServerListAndNormSets 4 shared 0 [4] \<lparr>p_list = [], normSets = [], entered = []\<rparr>
   = Some (Inr \<lparr>p_list = [0, 1, 3, 4, 2], normSets = [(1, [4]), (2, [4])],
                entered = [0, 1, 3, 4, 2, 3, 4]\<rparr>)
   \<and> count_list [0, 1, 3, 4, 2, 3, 4] (3::nat) = 2 \<and> \<not> isPdf shared 3"
  using shared_run by (simp add: shared_def plain_graph_def)

lemma hasSameLayout_eq: "length xs = length ys \<Longrightarrow> hasSameLayout xs ys = (xs = ys)"
  by (induction xs ys rule: list_induct2) (auto simp: hasSameLayout_def)

lemma sorted_serverNormSet: "sorted normSet \<Longrightarrow> sorted (serverNormSet g arg normSet server)"
  by (simp add: serverNormSet_def Let_def split: option.splits)

lemma all_sorted_visit: "all_sorted st \<Longrightarrow> sorted normSet \<Longrightarrow> all_sorted (visit g arg normSet st)"
  by (auto simp: all_sorted_def visit_def Let_def)

lemma propagation_errors:
  assumes "all_sorted st" "sorted normSet"
  shows "case treeNodeServerListAndNormSets fuel g arg normSet st of
           None \<Rightarrow> True | Some (Inl e) \<Rightarrow> conflict_report e | Some (Inr st') \<Rightarrow> all_sorted st'"
  using assms
proof (rule propagation_rule[where I = all_sorted and Q = "\<lambda>_. sorted" and E = conflict_report, rotated -2])
  fix arg normSet server st found
  assume a: "all_sorted st" "sorted normSet" "map_of (normSets st) server = Some found"
    "length found \<noteq> length (serverNormSet g arg normSet server) \<or>
       \<not> hasSameLayout (serverNormSet g arg normSet server) found"
  from a(1,3) have "sorted found" by (auto simp: all_sorted_def dest: map_of_SomeD)
  moreover have "serverNormSet g arg normSet server \<noteq> found"
    using a(4) hasSameLayout_eq[of "serverNormSet g arg normSet server" found] by auto
  ultimately show "conflict_report (RuntimeError (conflictMessage server
       (serverNormSet g arg normSet server) arg found))"
    using sorted_serverNormSet[OF a(2)] unfolding conflict_report_def by blast
qed (simp_all add: all_sorted_visit sorted_serverNormSet)

lemma dependsOn_servers_error:
  assumes "\<And>ck s. rec ck s \<noteq> Some (Inl (RuntimeError msg))"
  shows "dependsOn_servers rec p b ss ck \<noteq> Some (Inl (RuntimeError msg))"
proof (induction ss arbitrary: ck)
  case Nil
  then show ?case by simp
next
  case (Cons s ss)
  show ?case using assms[of ck s] Cons.IH
    by (auto simp: Let_def split: option.splits sum.splits)
qed

lemma dependsOn_error: "dependsOn fuel ck a b \<noteq> Some (Inl (RuntimeError msg))"
proof (induction fuel arbitrary: ck a)
  case 0
  then show ?case by simp
next
  case (Suc fuel)
  show ?case
    using dependsOn_servers_error[where rec = "\<lambda>ck' server. dependsOn fuel ck' server b", OF Suc.IH]
    by (auto split: option.splits)
qed

lemma clean_normSet_error:
  "clean_normSet fuel nodes key s ck actual \<noteq> Some (Inl (RuntimeError msg))"
proof (induction s arbitrary: ck actual)
  case Nil
  then show ?case by simp
next
  case (Cons narg rest)
  show ?case using dependsOn_error[of fuel ck key narg msg] Cons.IH
    by (auto split: option.splits sum.splits)
qed

lemma clean_normSets_error:
  "clean_normSets fuel nodes items ck \<noteq> Some (Inl (RuntimeError msg))"
proof (induction items arbitrary: ck)
  case Nil
  then show ?case by simp
next
  case (Cons item items)
  obtain key s where item: "item = (key, s)" by (cases item)
  show ?case
  proof (cases "s = []")
    case True
    with item Cons.IH[of ck] show ?thesis by (auto split: option.splits sum.splits)
  next
    case False
    show ?thesis
    proof (cases "clean_normSet fuel nodes key s ck []")
      case None
      with item False show ?thesis by simp
    next
      case (Some r)
      show ?thesis
      proof (cases r)
        case (Inl e)
        with Some item False clean_normSet_error[of fuel nodes key s ck "[]" msg]
        show ?thesis by auto
      next
        case (Inr c)
        obtain ck1 actual where c: "c = (ck1, actual)" by (cases c)
        with Inr Some item False Cons.IH[of ck1] show ?thesis
          by (auto split: option.splits sum.splits)
      qed
    qed
  qed
qed

lemma replace_pdfs_error: "replace_pdfs nodes ns wn \<noteq> Inl (RuntimeError msg)"
  by (induction nodes ns wn rule: replace_pdfs.induct)
     (auto simp: Let_def split: option.splits prod.splits)

lemma unfoldIntegrals_error:
  assumes "unfoldIntegrals fuel topNode normSet w = Some (Inl (RuntimeError msg))"
    and "w_normSets w = []"
  shows "conflict_report (RuntimeError msg)"
proof -
  let ?run = "treeNodeServerListAndNormSets fuel (graph w) topNode (sort normSet)
                \<lparr>p_list = [], normSets = [], entered = []\<rparr>"
  have p: "case ?run of None \<Rightarrow> True | Some (Inl e) \<Rightarrow> conflict_report e
           | Some (Inr st') \<Rightarrow> all_sorted st'"
    by (rule propagation_errors) (simp_all add: all_sorted_def)
  from assms show ?thesis
    using p
    using clean_normSets_error[of fuel _ _ _ msg] replace_pdfs_error[of _ _ _ msg]
    by (auto simp: unfoldIntegrals_def Let_def
        split: if_splits option.splits sum.splits prod.splits)
qed

lemma conflict_fresh: "fresh conflict = 6"
  by (simp add: fresh_def conflict_def plain_graph_def)

lemma conflict_run:
  "NormalizationIntegralUnfolder 5 0 [4] conflict
   = Some (Inl (RuntimeError (conflictMessage 3 [5] 2 [4])))"
proof -
  have "(case NormalizationIntegralUnfolder 5 0 [4] conflict of
           Some (Inl e) \<Rightarrow> Some e | _ \<Rightarrow> None)
        = Some (RuntimeError (conflictMessage 3 [5] 2 [4]))"
    by code_simp
  then show ?thesis by (simp split: option.splits sum.splits)
qed

text \<open>
  C2 as stated fails for the second parent: in the graph \<open>conflict\<close> the clients of
  the pdf 3 are the pdfs 1 and 2; the pdf 1 requests the recorded set, the pdf 2 the new
  one, and the error does not name the pdf 1.
\<close>

theorem conflict_first_parent_counterexample:
  "NormalizationIntegralUnfolder 5 0 [4] conflict
     = Some (Inl (RuntimeError (conflictMessage 3 [5] 2 [4])))
   \<and> clients conflict 3 = [1, 2]
   \<and> GetName 1 \<notin> set (conflictMessage 3 [5] 2 [4])
   \<and> ClassName 1 \<notin> set (conflictMessage 3 [5] 2 [4])"
  using conflict_run
  by (simp add: conflictMessage_def clients_def conflict_def plain_graph_def conflict_servers_def)


section \<open>Redirecting the clients of a replaced node\<close>

lemma subst1_idem [simp]: "subst1 old new (subst1 old new s) = subst1 old new s"
  by (simp add: subst1_def)

lemma findNewServer_single:
  "attribs g newArg = {oldArg} \<Longrightarrow> findNewServer g [newArg] = subst1 oldArg newArg"
  by (auto simp: findNewServer_def subst1_def fun_eq_iff)

lemma fold_redirect_single:
  assumes "attribs g newArg = {oldArg}"
  shows "fold (\<lambda>client g. if isCachedPdf g client then g
                           else redirectServers [newArg] client g) cs g
         = g\<lparr>servers := (\<lambda>c. if c \<in> set cs \<and> \<not> isCachedPdf g c
                              then map (subst1 oldArg newArg) (servers g c)
                              else servers g c)\<rparr>"
  using assms
proof (induction cs arbitrary: g)
  case Nil
  then show ?case by simp
next
  case (Cons c cs)
  let ?step = "\<lambda>client g. if isCachedPdf g client then g else redirectServers [newArg] client g"
  let ?g' = "?step c g"
  have a: "attribs ?g' newArg = {oldArg}" "isCachedPdf ?g' = isCachedPdf g"
    using Cons.prems by (simp_all add: redirectServers_def)
  have s: "servers ?g' = (if isCachedPdf g c then servers g
                          else (servers g)(c := map (subst1 oldArg newArg) (servers g c)))"
    using Cons.prems by (simp add: redirectServers_def findNewServer_single)
  have "fold ?step (c # cs) g = fold ?step cs ?g'" by simp
  also have "\<dots> = ?g'\<lparr>servers := (\<lambda>c'. if c' \<in> set cs \<and> \<not> isCachedPdf ?g' c'
                              then map (subst1 oldArg newArg) (servers ?g' c')
                              else servers ?g' c')\<rparr>"
    by (rule Cons.IH[OF a(1)])
  also have "\<dots> = g\<lparr>servers := (\<lambda>c'. if c' \<in> set (c # cs) \<and> \<not> isCachedPdf g c'
                              then map (subst1 oldArg newArg) (servers g c')
                              else servers g c')\<rparr>"
  proof (cases "isCachedPdf g c")
    case True
    then have "(\<lambda>c'. if c' \<in> set cs \<and> \<not> isCachedPdf g c'
                     then map (subst1 oldArg newArg) (servers g c') else servers g c')
             = (\<lambda>c'. if c' \<in> set (c # cs) \<and> \<not> isCachedPdf g c'
                     then map (subst1 oldArg newArg) (servers g c') else servers g c')"
      by (auto simp: fun_eq_iff)
    with True show ?thesis by simp
  next
    case False
    let ?S = "(servers g)(c := map (subst1 oldArg newArg) (servers g c))"
    have g': "?g' = g\<lparr>servers := ?S\<rparr>"
      using False Cons.prems by (simp add: redirectServers_def findNewServer_single)
    have "(\<lambda>c'. if c' \<in> set cs \<and> \<not> isCachedPdf g c'
                     then map (subst1 oldArg newArg) (?S c') else ?S c')
             = (\<lambda>c'. if c' \<in> set (c # cs) \<and> \<not> isCachedPdf g c'
                     then map (subst1 oldArg newArg) (servers g c') else servers g c')"
      using False by (auto simp: fun_eq_iff)
    then have "(\<lambda>c'. if c' \<in> set cs \<and> \<not> isCachedPdf (g\<lparr>servers := ?S\<rparr>) c'
                     then map (subst1 oldArg newArg) (servers (g\<lparr>servers := ?S\<rparr>) c')
                     else servers (g\<lparr>servers := ?S\<rparr>) c')
             = (\<lambda>c'. if c' \<in> set (c # cs) \<and> \<not> isCachedPdf g c'
                     then map (subst1 oldArg newArg) (servers g c') else servers g c')"
      by (simp cong: if_cong)
    then show ?thesis unfolding g' by simp
  qed
  finally show ?case .
qed

lemma replaceArg_graph:
  assumes "attribs (graph w) newArg = {}"
  shows "graph (replaceArg nodes newArg oldArg w)
         = (graph w)\<lparr>servers := (\<lambda>c. if c \<in> set (clients (graph w) oldArg) \<and> c \<in> set nodes
                                        \<and> \<not> isCachedPdf (graph w) c
                                     then map (subst1 oldArg newArg) (servers (graph w) c)
                                     else servers (graph w) c)\<rparr>"
proof -
  let ?g1 = "setAttribute newArg oldArg True (graph w)"
  have a: "attribs ?g1 newArg = {oldArg}" using assms by (simp add: setAttribute_def)
  have c: "clients ?g1 oldArg = clients (graph w) oldArg"
    by (simp add: clients_def setAttribute_def)
  have r: "(attribs (graph w))(newArg := {}) = attribs (graph w)"
    using assms by (auto simp: fun_eq_iff)
  have "graph (replaceArg nodes newArg oldArg w)
        = setAttribute newArg oldArg False
            (?g1\<lparr>servers := (\<lambda>c. if c \<in> set (filter (\<lambda>client. client \<in> set nodes)
                                                   (clients (graph w) oldArg))
                                         \<and> \<not> isCachedPdf ?g1 c
                                      then map (subst1 oldArg newArg) (servers ?g1 c)
                                      else servers ?g1 c)\<rparr>)"
    unfolding replaceArg_def Let_def c fold_redirect_single[OF a] by simp
  also have "\<dots> = (graph w)\<lparr>servers := (\<lambda>c. if c \<in> set (filter (\<lambda>client. client \<in> set nodes)
                                                   (clients (graph w) oldArg))
                                         \<and> \<not> isCachedPdf (graph w) c
                                      then map (subst1 oldArg newArg) (servers (graph w) c)
                                      else servers (graph w) c),
                         attribs := (attribs (graph w))(newArg := {})\<rparr>"
  proof -
    have "(\<lambda>c. if c \<in> set (filter (\<lambda>client. client \<in> set nodes) (clients (graph w) oldArg))
                                         \<and> \<not> isCachedPdf ?g1 c
                                      then map (subst1 oldArg newArg) (servers ?g1 c)
                                      else servers ?g1 c)
        = (\<lambda>c. if c \<in> set (filter (\<lambda>client. client \<in> set nodes) (clients (graph w) oldArg))
                                         \<and> \<not> isCachedPdf (graph w) c
                                      then map (subst1 oldArg newArg) (servers (graph w) c)
                                      else servers (graph w) c)"
      by (simp add: setAttribute_def cong: if_cong)
    then show ?thesis using assms by (simp add: setAttribute_def)
  qed
  also have "(\<lambda>c. if c \<in> set (filter (\<lambda>client. client \<in> set nodes) (clients (graph w) oldArg))
                                         \<and> \<not> isCachedPdf (graph w) c
                                      then map (subst1 oldArg newArg) (servers (graph w) c)
                                      else servers (graph w) c)
      = (\<lambda>c. if c \<in> set (clients (graph w) oldArg) \<and> c \<in> set nodes
                                        \<and> \<not> isCachedPdf (graph w) c
                                     then map (subst1 oldArg newArg) (servers (graph w) c)
                                     else servers (graph w) c)"
    by (auto simp: fun_eq_iff)
  finally show ?thesis by (simp add: r)
qed

text \<open>
  C7.  When \<open>replaceArg\<close> puts the wrapper \<open>newArg\<close>, a new node without
  attributes, in the place of \<open>oldArg\<close>, the clients of \<open>oldArg\<close> that are in the
  collection of visited nodes and are no cached pdfs have \<open>oldArg\<close> replaced by the
  wrapper in their server lists; the server list of every other node, in particular of a
  client outside the collection and of a cached pdf, is what it was.
\<close>

theorem replaceArg_redirects_scoped_clients:
  assumes "attribs (graph w) newArg = {}"
  shows "servers (graph (replaceArg nodes newArg oldArg w)) client
         = (if client \<in> set (clients (graph w) oldArg) \<and> client \<in> set nodes
               \<and> \<not> isCachedPdf (graph w) client
            then map (\<lambda>s. if s = oldArg then newArg else s) (servers (graph w) client)
            else servers (graph w) client)"
  using replaceArg_graph[OF assms, of nodes oldArg]
  by (simp add: subst1_def[abs_def])

text \<open>
  C3.  With an empty normalization set \<open>unfoldIntegrals\<close> returns the world as it is and
  no new node: no set is recorded, nothing is replaced, no value is requested and the
  graph is the one the aggregator was added to.  The unfolder notes that the set was
  empty, and the body of its destructor leaves it as it is.
\<close>

theorem empty_normSet_is_noop:
  "unfoldIntegrals fuel topNode [] w = Some (Inr (w, []))
   \<and> NormalizationIntegralUnfolder fuel topNode [] g
       = Some (Inr \<lparr>u_world = \<lparr>graph = snd (RooAddition topNode g), w_normSets = [],
                               replacedArgs = [], newArgs = [], getValCalls = []\<rparr>,
                    topNodeWrapper = fst (RooAddition topNode g),
                    normSetWasEmpty = True, ownedComponents = [], u_arg = Some topNode\<rparr>)
   \<and> destructor fuel'
        \<lparr>u_world = \<lparr>graph = snd (RooAddition topNode g), w_normSets = [],
                     replacedArgs = [], newArgs = [], getValCalls = []\<rparr>,
         topNodeWrapper = fst (RooAddition topNode g),
         normSetWasEmpty = True, ownedComponents = [], u_arg = Some topNode\<rparr>
       = Some (Inr \<lparr>u_world = \<lparr>graph = snd (RooAddition topNode g), w_normSets = [],
                               replacedArgs = [], newArgs = [], getValCalls = []\<rparr>,
                    topNodeWrapper = fst (RooAddition topNode g),
                    normSetWasEmpty = True, ownedComponents = [], u_arg = Some topNode\<rparr>)"
  by (simp add: unfoldIntegrals_def NormalizationIntegralUnfolder_def destructor_def
      RooAddition_def Let_def)

section \<open>Creating the wrappers\<close>

lemma le_fold_max: "n \<in> set xs \<Longrightarrow> n \<le> fold max xs (m::nat)"
proof (induction xs arbitrary: m)
  case Nil
  then show ?case by simp
next
  case (Cons x xs)
  have "m' \<le> fold max xs (m'::nat)" for m'
    by (induction xs arbitrary: m') (auto intro: order_trans[OF max.cobounded2])
  from this[of "max x m"] Cons show ?case by (auto intro: order_trans[OF max.cobounded1])
qed

lemma fresh_not_live: "fresh g \<notin> set (live g)"
  using le_fold_max[of "fresh g" "live g" 0] by (auto simp: fresh_def)

lemma RooNormalizedPdf_fields:
  "fst (RooNormalizedPdf p s g) = fresh g"
  "live (snd (RooNormalizedPdf p s g)) = live g @ [fresh g]"
  "servers (snd (RooNormalizedPdf p s g)) = (servers g)(fresh g := [p])"
  "attribs (snd (RooNormalizedPdf p s g)) = (attribs g)(fresh g := {})"
  "isPdf (snd (RooNormalizedPdf p s g)) = (isPdf g)(fresh g := True)"
  "isCachedPdf (snd (RooNormalizedPdf p s g)) = (isCachedPdf g)(fresh g := False)"
  "selfNormalized (snd (RooNormalizedPdf p s g)) = (selfNormalized g)(fresh g := True)"
  "wrapped (snd (RooNormalizedPdf p s g)) = (wrapped g)(fresh g \<mapsto> (p, s))"
  by (simp_all add: RooNormalizedPdf_def Let_def)

lemma replaceArg_fields:
  "w_normSets (replaceArg nodes newArg oldArg w) = w_normSets w"
  "getValCalls (replaceArg nodes newArg oldArg w) = getValCalls w"
  "replacedArgs (replaceArg nodes newArg oldArg w) = add_silent (replacedArgs w) oldArg"
  "newArgs (replaceArg nodes newArg oldArg w) = add_silent (newArgs w) newArg"
  by (simp_all add: replaceArg_def Let_def)

text \<open>
  Client scoping on the graph \<open>scoping\<close>: when the pdf 1 gets its wrapper 5, the top
  node 0 is redirected, the node 3 outside the visited collection and the cached pdf 4
  are not.
\<close>

theorem replaceArg_redirects_scoped_clients_witness:
  "attribs (snd (RooNormalizedPdf 1 [2] scoping)) 5 = {}
   \<and> clients (snd (RooNormalizedPdf 1 [2] scoping)) 1 = [0, 3, 4, 5]
   \<and> servers (graph (replaceArg [0, 1, 2, 4] 5 1
        \<lparr>graph = snd (RooNormalizedPdf 1 [2] scoping), w_normSets = [(1, [2]), (4, [2])],
         replacedArgs = [], newArgs = [], getValCalls = [(1, [2])]\<rparr>)) 0 = [5, 4]
   \<and> servers (graph (replaceArg [0, 1, 2, 4] 5 1
        \<lparr>graph = snd (RooNormalizedPdf 1 [2] scoping), w_normSets = [(1, [2]), (4, [2])],
         replacedArgs = [], newArgs = [], getValCalls = [(1, [2])]\<rparr>)) 3 = [1]
   \<and> servers (graph (replaceArg [0, 1, 2, 4] 5 1
        \<lparr>graph = snd (RooNormalizedPdf 1 [2] scoping), w_normSets = [(1, [2]), (4, [2])],
         replacedArgs = [], newArgs = [], getValCalls = [(1, [2])]\<rparr>)) 4 = [1]"
proof -
  let ?w = "\<lparr>graph = snd (RooNormalizedPdf 1 [2] scoping), w_normSets = [(1, [2]), (4, [2])],
         replacedArgs = [], newArgs = [], getValCalls = [(1, [2])]\<rparr>"
  have f: "fresh scoping = 5" by (simp add: fresh_def scoping_def plain_graph_def)
  have g: "live scoping = [0, 1, 2, 3, 4]" "servers scoping = scoping_servers"
    "attribs scoping = (\<lambda>n. {})" "isCachedPdf scoping = (\<lambda>n. n = 4)"
    by (simp_all add: scoping_def plain_graph_def)
  have a: "attribs (graph ?w) 5 = {}"
    by (simp add: RooNormalizedPdf_fields f)
  have c: "clients (snd (RooNormalizedPdf 1 [2] scoping)) 1 = [0, 3, 4, 5]"
    by (simp add: clients_def RooNormalizedPdf_fields f g scoping_servers_def)
  have s: "servers (graph ?w) 0 = [1, 4]" "servers (graph ?w) 3 = [1]" "servers (graph ?w) 4 = [1]"
    "isCachedPdf (graph ?w) 0 = False" "isCachedPdf (graph ?w) 4 = True"
    by (simp_all add: RooNormalizedPdf_fields f g scoping_servers_def)
  from replaceArg_redirects_scoped_clients[OF a, of "[0, 1, 2, 4]" 1 0]
       replaceArg_redirects_scoped_clients[OF a, of "[0, 1, 2, 4]" 1 3]
       replaceArg_redirects_scoped_clients[OF a, of "[0, 1, 2, 4]" 1 4]
       a c s
  show ?thesis by simp
qed

section \<open>The loop that replaces the pdfs\<close>

lemma replace_pdfs_Cons:
  "replace_pdfs nodes (node # rest) (w, nn) =
     (if \<not> isPdf (graph w) node then replace_pdfs nodes rest (w, nn)
      else case map_of (w_normSets w) node of
             None \<Rightarrow> Inl OutOfRange
           | Some s \<Rightarrow>
               if s = [] then replace_pdfs nodes rest (w, nn)
               else if selfNormalized (graph w) node \<and> \<not> isCachedPdf (graph w) node
                    then replace_pdfs nodes rest (w\<lparr>getValCalls := getValCalls w @ [(node, s)]\<rparr>, nn)
                    else replace_pdfs nodes rest (wrap_step nodes node s w, nn @ [fresh (graph w)]))"
  by (auto simp: wrap_step_def RooNormalizedPdf_def Let_def split: option.splits)

declare replace_pdfs.simps(2) [simp del]

lemma wrap_step_fields:
  "w_normSets (wrap_step nodes node s w) = w_normSets w"
  "getValCalls (wrap_step nodes node s w) = getValCalls w @ [(node, s)]"
  "replacedArgs (wrap_step nodes node s w) = add_silent (replacedArgs w) node"
  "newArgs (wrap_step nodes node s w) = add_silent (newArgs w) (fresh (graph w))"
  by (simp_all add: wrap_step_def replaceArg_fields)

lemma wrap_step_graph:
  "graph (wrap_step nodes node s w)
   = (snd (RooNormalizedPdf node s (graph w)))
       \<lparr>servers := (\<lambda>c. if c \<in> set (clients (snd (RooNormalizedPdf node s (graph w))) node)
                            \<and> c \<in> set nodes
                            \<and> \<not> isCachedPdf (snd (RooNormalizedPdf node s (graph w))) c
                         then map (subst1 node (fresh (graph w)))
                                (servers (snd (RooNormalizedPdf node s (graph w))) c)
                         else servers (snd (RooNormalizedPdf node s (graph w))) c)\<rparr>"
  unfolding wrap_step_def
  by (subst replaceArg_graph) (simp_all add: RooNormalizedPdf_fields cong: if_cong)

lemma wrap_step_static:
  "live (graph (wrap_step nodes node s w)) = live (graph w) @ [fresh (graph w)]"
  "attribs (graph (wrap_step nodes node s w)) = (attribs (graph w))(fresh (graph w) := {})"
  "isPdf (graph (wrap_step nodes node s w)) = (isPdf (graph w))(fresh (graph w) := True)"
  "isCachedPdf (graph (wrap_step nodes node s w)) = (isCachedPdf (graph w))(fresh (graph w) := False)"
  "selfNormalized (graph (wrap_step nodes node s w)) = (selfNormalized (graph w))(fresh (graph w) := True)"
  "wrapped (graph (wrap_step nodes node s w)) = (wrapped (graph w))(fresh (graph w) \<mapsto> (node, s))"
  by (simp_all add: wrap_step_graph RooNormalizedPdf_fields)

lemma map_subst1_absent: "old \<notin> set xs \<Longrightarrow> map (subst1 old new) xs = xs"
  by (induction xs) (auto simp: subst1_def)

lemma wrap_step_servers:
  assumes "set nodes \<subseteq> set (live (graph w))"
  shows "servers (graph (wrap_step nodes node s w)) c
         = (if c = fresh (graph w) then [node]
            else if c \<in> set nodes \<and> \<not> isCachedPdf (graph w) c
                 then map (subst1 node (fresh (graph w))) (servers (graph w) c)
                 else servers (graph w) c)"
proof -
  have f: "fresh (graph w) \<notin> set nodes" using assms fresh_not_live[of "graph w"] by auto
  show ?thesis
  proof (cases "c = fresh (graph w)")
    case True
    with f show ?thesis by (simp add: wrap_step_graph RooNormalizedPdf_fields)
  next
    case False
    show ?thesis
    proof (cases "c \<in> set nodes \<and> \<not> isCachedPdf (graph w) c")
      case True
      then have l: "c \<in> set (live (graph w))" using assms by auto
      show ?thesis
      proof (cases "node \<in> set (servers (graph w) c)")
        case in_s: True
        with True False l show ?thesis
          by (simp add: wrap_step_graph RooNormalizedPdf_fields clients_def)
      next
        case notin: False
        with True False l show ?thesis
          by (simp add: wrap_step_graph RooNormalizedPdf_fields clients_def map_subst1_absent)
      qed
    next
      case nt: False
      with False show ?thesis
        by (auto simp: wrap_step_graph RooNormalizedPdf_fields)
    qed
  qed
qed

lemma getVal_due_Nil [simp]: "getVal_due w [] = {}"
  by (simp add: getVal_due_def)

lemma getVal_due_skip:
  "\<not> isPdf (graph w) node \<or> map_of (w_normSets w) node = Some [] \<Longrightarrow>
   getVal_due w (node # rest) = getVal_due w rest"
  unfolding getVal_due_def by auto

lemma getVal_due_log:
  "isPdf (graph w) node \<Longrightarrow> map_of (w_normSets w) node = Some s \<Longrightarrow> s \<noteq> [] \<Longrightarrow>
   getVal_due w (node # rest) = insert (node, s) (getVal_due w rest)"
  unfolding getVal_due_def by auto

lemma getVal_due_cong:
  "\<forall>n\<in>set ns. isPdf (graph w2) n = isPdf (graph w) n \<Longrightarrow> w_normSets w2 = w_normSets w \<Longrightarrow>
   getVal_due w2 ns = getVal_due w ns"
  unfolding getVal_due_def by auto

lemma getValCalls_replace_pdfs:
  "replace_pdfs nodes ns (w, newNodes) = Inr (w', newNodes') \<Longrightarrow>
   set ns \<subseteq> set (live (graph w)) \<Longrightarrow>
   set (getValCalls w') = set (getValCalls w) \<union> getVal_due w ns"
proof (induction ns arbitrary: w newNodes)
  case Nil
  then show ?case by simp
next
  case (Cons node rest)
  have rest: "set rest \<subseteq> set (live (graph w))" using Cons.prems(2) by simp
  note run = Cons.prems(1)[unfolded replace_pdfs_Cons]
  show ?case
  proof (cases "isPdf (graph w) node")
    case False
    with run have "replace_pdfs nodes rest (w, newNodes) = Inr (w', newNodes')" by simp
    from Cons.IH[OF this rest] show ?thesis by (simp add: getVal_due_skip False)
  next
    case True
    show ?thesis
    proof (cases "map_of (w_normSets w) node")
      case None
      with run True show ?thesis by simp
    next
      case (Some s)
      show ?thesis
      proof (cases "s = []")
        case e: True
        with True Some run have "replace_pdfs nodes rest (w, newNodes) = Inr (w', newNodes')"
          by simp
        from Cons.IH[OF this rest] show ?thesis using Some e by (simp add: getVal_due_skip)
      next
        case ne: False
        note due = getVal_due_log[OF True Some ne, of rest]
        show ?thesis
        proof (cases "selfNormalized (graph w) node \<and> \<not> isCachedPdf (graph w) node")
          case skip: True
          let ?w1 = "w\<lparr>getValCalls := getValCalls w @ [(node, s)]\<rparr>"
          from True Some ne skip run
          have "replace_pdfs nodes rest (?w1, newNodes) = Inr (w', newNodes')" by simp
          moreover have "set rest \<subseteq> set (live (graph ?w1))" using rest by simp
          ultimately have "set (getValCalls w') = set (getValCalls ?w1) \<union> getVal_due ?w1 rest"
            by (rule Cons.IH)
          moreover have "getVal_due ?w1 rest = getVal_due w rest"
            by (rule getVal_due_cong) simp_all
          ultimately show ?thesis by (simp add: due)
        next
          case wrap: False
          let ?w2 = "wrap_step nodes node s w"
          from wrap have c: "(selfNormalized (graph w) node \<and> \<not> isCachedPdf (graph w) node) = False"
            by simp
          from True Some ne run
          have "replace_pdfs nodes rest (?w2, newNodes @ [fresh (graph w)]) = Inr (w', newNodes')"
            unfolding c by simp
          moreover have "set rest \<subseteq> set (live (graph ?w2))"
            using rest by (auto simp: wrap_step_static)
          ultimately have "set (getValCalls w') = set (getValCalls ?w2) \<union> getVal_due ?w2 rest"
            by (rule Cons.IH)
          moreover have "getVal_due ?w2 rest = getVal_due w rest"
          proof (rule getVal_due_cong)
            show "\<forall>n\<in>set rest. isPdf (graph ?w2) n = isPdf (graph w) n"
              using rest fresh_not_live[of "graph w"] by (auto simp: wrap_step_static)
          qed (simp add: wrap_step_fields)
          ultimately show ?thesis by (simp add: due wrap_step_fields)
        qed
      qed
    qed
  qed
qed

text \<open>
  C8, as the code has it.  The loop calls \<^verbatim>\<open>getVal\<close> for a node exactly when the node is
  a pdf with a non-empty normalization set in the table; the call comes before the test
  for self-normalized pdfs, so it is made for the pdfs that get a wrapper and for those
  that are skipped alike.
\<close>

theorem getVal_for_every_pdf_with_normSet:
  assumes "replace_pdfs nodes ns (w, newNodes) = Inr (w', newNodes')"
    and "set ns \<subseteq> set (live (graph w))"
  shows "set (getValCalls w') =
           set (getValCalls w) \<union>
           {(n, s). n \<in> set ns \<and> isPdf (graph w) n \<and> map_of (w_normSets w) n = Some s \<and> s \<noteq> []}"
  using getValCalls_replace_pdfs[OF assms] by (simp add: getVal_due_def)

lemma map_eq_subst1:
  "node \<noteq> P \<Longrightarrow> W \<noteq> P \<Longrightarrow> map (\<lambda>x. x = P) (map (subst1 node W) xs) = map (\<lambda>x. x = P) xs"
  by (induction xs) (auto simp: subst1_def)

lemma self_normalized_kept:
  "replace_pdfs nodes ns (w, newNodes) = Inr (w', newNodes') \<Longrightarrow>
   set nodes \<subseteq> set (live (graph w)) \<Longrightarrow> P \<in> set (live (graph w)) \<Longrightarrow>
   selfNormalized (graph w) P \<Longrightarrow> \<not> isCachedPdf (graph w) P \<Longrightarrow>
   (P \<in> set (replacedArgs w') \<longrightarrow> P \<in> set (replacedArgs w))
   \<and> (\<forall>W s. wrapped (graph w') W = Some (P, s) \<longrightarrow> wrapped (graph w) W = Some (P, s))
   \<and> (\<forall>c\<in>set (live (graph w)).
         map (\<lambda>x. x = P) (servers (graph w') c) = map (\<lambda>x. x = P) (servers (graph w) c))"
proof (induction ns arbitrary: w newNodes)
  case Nil
  then show ?case by simp
next
  case (Cons node rest)
  note run = Cons.prems(1)[unfolded replace_pdfs_Cons]
  note IH = Cons.IH[OF _ Cons.prems(2-5)]
  show ?case
  proof (cases "isPdf (graph w) node")
    case False
    with run have "replace_pdfs nodes rest (w, newNodes) = Inr (w', newNodes')" by simp
    then show ?thesis by (rule IH)
  next
    case True
    show ?thesis
    proof (cases "map_of (w_normSets w) node")
      case None
      with run True show ?thesis by simp
    next
      case (Some s)
      show ?thesis
      proof (cases "s = []")
        case e: True
        with True Some run have "replace_pdfs nodes rest (w, newNodes) = Inr (w', newNodes')"
          by simp
        then show ?thesis by (rule IH)
      next
        case ne: False
        show ?thesis
        proof (cases "selfNormalized (graph w) node \<and> \<not> isCachedPdf (graph w) node")
          case skip: True
          let ?w1 = "w\<lparr>getValCalls := getValCalls w @ [(node, s)]\<rparr>"
          from True Some ne skip run
          have "replace_pdfs nodes rest (?w1, newNodes) = Inr (w', newNodes')" by simp
          from Cons.IH[OF this] Cons.prems(2-5) show ?thesis by simp
        next
          case wrap: False
          let ?w2 = "wrap_step nodes node s w"
          let ?W = "fresh (graph w)"
          from wrap have c: "(selfNormalized (graph w) node \<and> \<not> isCachedPdf (graph w) node) = False"
            by simp
          from wrap Cons.prems(4,5) have nP: "node \<noteq> P" by auto
          from Cons.prems(3) fresh_not_live[of "graph w"] have WP: "?W \<noteq> P" by auto
          from True Some ne run
          have r: "replace_pdfs nodes rest (?w2, newNodes @ [?W]) = Inr (w', newNodes')"
            unfolding c by simp
          have "(P \<in> set (replacedArgs w') \<longrightarrow> P \<in> set (replacedArgs ?w2))
                \<and> (\<forall>W s. wrapped (graph w') W = Some (P, s) \<longrightarrow> wrapped (graph ?w2) W = Some (P, s))
                \<and> (\<forall>c\<in>set (live (graph ?w2)).
                      map (\<lambda>x. x = P) (servers (graph w') c)
                      = map (\<lambda>x. x = P) (servers (graph ?w2) c))"
            using r
          proof (rule Cons.IH)
            show "set nodes \<subseteq> set (live (graph ?w2))"
              using Cons.prems(2) by (auto simp: wrap_step_static)
            show "P \<in> set (live (graph ?w2))" using Cons.prems(3) by (simp add: wrap_step_static)
            show "selfNormalized (graph ?w2) P" using Cons.prems(4) WP by (simp add: wrap_step_static)
            show "\<not> isCachedPdf (graph ?w2) P" using Cons.prems(5) WP by (simp add: wrap_step_static)
          qed
          then have a: "P \<in> set (replacedArgs w') \<longrightarrow> P \<in> set (replacedArgs ?w2)"
            and b: "\<And>W s. wrapped (graph w') W = Some (P, s) \<Longrightarrow> wrapped (graph ?w2) W = Some (P, s)"
            and d: "\<And>c. c \<in> set (live (graph ?w2)) \<Longrightarrow>
                      map (\<lambda>x. x = P) (servers (graph w') c)
                      = map (\<lambda>x. x = P) (servers (graph ?w2) c)"
            by blast+
          have 1: "P \<in> set (replacedArgs w') \<longrightarrow> P \<in> set (replacedArgs w)"
            using a nP by (auto simp: wrap_step_fields add_silent_def split: if_splits)
          have 2: "wrapped (graph w) W = Some (P, s')" if "wrapped (graph w') W = Some (P, s')" for W s'
            using b[OF that] nP by (auto simp: wrap_step_static split: if_splits)
          have 3: "map (\<lambda>x. x = P) (servers (graph w') c) = map (\<lambda>x. x = P) (servers (graph w) c)"
            if "c \<in> set (live (graph w))" for c
          proof -
            from that fresh_not_live[of "graph w"] have cW: "c \<noteq> ?W" by auto
            have "map (\<lambda>x. x = P) (servers (graph w') c) = map (\<lambda>x. x = P) (servers (graph ?w2) c)"
              using that by (intro d) (simp add: wrap_step_static)
            also have "\<dots> = map (\<lambda>x. x = P) (servers (graph w) c)"
              using cW map_eq_subst1[OF nP WP, of "servers (graph w) c"]
              by (simp add: wrap_step_servers[OF Cons.prems(2)] del: map_map)
            finally show ?thesis .
          qed
          from 1 2 3 show ?thesis by blast
        qed
      qed
    qed
  qed
qed

text \<open>
  C6.  A live node that reports itself self-normalized and is no cached pdf is not
  replaced by the loop, whatever its normalization set: it is not added to the replaced
  nodes, no new wrapper wraps it, and every node that was there before the loop has it
  at the same places of its server list as before.
\<close>

theorem self_normalized_pdf_not_wrapped:
  assumes "replace_pdfs nodes ns (w, newNodes) = Inr (w', newNodes')"
    and "set nodes \<subseteq> set (live (graph w))" and "P \<in> set (live (graph w))"
    and "selfNormalized (graph w) P" and "\<not> isCachedPdf (graph w) P"
    and "P \<notin> set (replacedArgs w)"
  shows "P \<notin> set (replacedArgs w')
   \<and> (\<forall>W s. wrapped (graph w') W = Some (P, s) \<longrightarrow> wrapped (graph w) W = Some (P, s))
   \<and> (\<forall>c\<in>set (live (graph w)).
         map (\<lambda>x. x = P) (servers (graph w') c) = map (\<lambda>x. x = P) (servers (graph w) c))"
  using self_normalized_kept[OF assms(1-5)] assms(6) by blast

lemma selfnorm_loop:
  "replace_pdfs [0, 1] [0, 1]
     (\<lparr>graph = selfnorm, w_normSets = [(0, [1])], replacedArgs = [], newArgs = [],
       getValCalls = []\<rparr>, [])
   = Inr (\<lparr>graph = selfnorm, w_normSets = [(0, [1])], replacedArgs = [], newArgs = [],
           getValCalls = [(0, [1])]\<rparr>, [])"
  by (simp add: replace_pdfs_Cons selfnorm_def plain_graph_def)

text \<open>
  C8 as stated fails: the self-normalized pdf 0 of the graph \<open>selfnorm\<close> gets no wrapper,
  and the loop has called \<^verbatim>\<open>getVal\<close> for it.
\<close>

theorem getVal_before_skip_counterexample:
  "replace_pdfs [0, 1] [0, 1]
     (\<lparr>graph = selfnorm, w_normSets = [(0, [1])], replacedArgs = [], newArgs = [],
       getValCalls = []\<rparr>, [])
   = Inr (\<lparr>graph = selfnorm, w_normSets = [(0, [1])], replacedArgs = [], newArgs = [],
           getValCalls = [(0, [1])]\<rparr>, [])
   \<and> isPdf selfnorm 0 \<and> selfNormalized selfnorm 0 \<and> \<not> isCachedPdf selfnorm 0"
  using selfnorm_loop by (simp add: selfnorm_def plain_graph_def)

text \<open>
  The same run: the calls are those for the pdf 0 with its set.
\<close>

theorem getVal_for_every_pdf_with_normSet_witness:
  "set [0, 1] \<subseteq> set (live selfnorm)
   \<and> set [(0::nat, [1::nat])]
       = set [] \<union> {(n, s). n \<in> set [0, 1] \<and> isPdf selfnorm n
                          \<and> map_of [(0, [1])] n = Some s \<and> s \<noteq> []}"
proof -
  have l: "set [0, 1] \<subseteq> set (live selfnorm)" by (simp add: selfnorm_def plain_graph_def)
  from getVal_for_every_pdf_with_normSet[OF selfnorm_loop] l show ?thesis by simp
qed

lemma mixed_loop:
  "(case replace_pdfs [0, 1, 3, 2] [0, 1, 3, 2]
           (\<lparr>graph = mixed, w_normSets = [(1, [3]), (2, [3])], replacedArgs = [], newArgs = [],
             getValCalls = []\<rparr>, []) of
      Inr (w', nn) \<Rightarrow> Some (replacedArgs w', newArgs w', nn, servers (graph w') 0,
                             wrapped (graph w') 4, getValCalls w')
    | Inl e \<Rightarrow> None)
   = Some ([2], [4], [4], [1, 4], Some (2, [3]), [(1, [3]), (2, [3])])"
  by code_simp

text \<open>
  In the graph \<open>mixed\<close> the pdf 2 gets the wrapper 4 and the self-normalized pdf 1 stays
  where it is.
\<close>

theorem self_normalized_pdf_not_wrapped_witness:
  "\<exists>w' nn. replace_pdfs [0, 1, 3, 2] [0, 1, 3, 2]
           (\<lparr>graph = mixed, w_normSets = [(1, [3]), (2, [3])], replacedArgs = [], newArgs = [],
             getValCalls = []\<rparr>, []) = Inr (w', nn)
     \<and> set [0, 1, 3, 2] \<subseteq> set (live mixed) \<and> 1 \<in> set (live mixed)
     \<and> selfNormalized mixed 1 \<and> \<not> isCachedPdf mixed 1
     \<and> replacedArgs w' = [2] \<and> servers (graph w') 0 = [1, 4] \<and> 1 \<notin> set (replacedArgs w')
     \<and> (\<forall>W s. wrapped (graph w') W = Some (1, s) \<longrightarrow> wrapped mixed W = Some (1, s))
     \<and> map (\<lambda>x. x = 1) (servers (graph w') 0) = map (\<lambda>x. x = 1) (servers mixed 0)"
proof -
  let ?w = "\<lparr>graph = mixed, w_normSets = [(1, [3]), (2, [3])], replacedArgs = [], newArgs = [],
             getValCalls = []\<rparr>"
  from mixed_loop obtain w' nn where
    r: "replace_pdfs [0, 1, 3, 2] [0, 1, 3, 2] (?w, []) = Inr (w', nn)"
    and v: "replacedArgs w' = [2]" "servers (graph w') 0 = [1, 4]"
    by (auto split: sum.splits)
  have h: "set [0, 1, 3, 2] \<subseteq> set (live (graph ?w))" "1 \<in> set (live (graph ?w))"
    "selfNormalized (graph ?w) 1" "\<not> isCachedPdf (graph ?w) 1" "1 \<notin> set (replacedArgs ?w)"
    by (simp_all add: mixed_def plain_graph_def)
  from self_normalized_pdf_not_wrapped[OF r h] r v h show ?thesis by auto
qed

section \<open>Narrowing the normalization sets\<close>

lemma visited_inv_visit:
  assumes "visited_inv g topNode st" "arg \<in> (gedges g)\<^sup>* `` {topNode}" "map_of (normSets st) arg = None"
  shows "visited_inv g topNode (visit g arg normSet st)"
proof -
  from assms(3) have "arg \<notin> fst ` set (normSets st)" by (simp add: map_of_eq_None_iff)
  with assms(1,2) show ?thesis
    by (auto simp: visited_inv_def visit_def Let_def add_silent_def)
qed

lemma propagation_visited:
  assumes "visited_inv g topNode st" "arg \<in> (gedges g)\<^sup>* `` {topNode}"
    and "treeNodeServerListAndNormSets fuel g arg normSet st = Some (Inr st')"
  shows "visited_inv g topNode st'"
proof -
  have "case treeNodeServerListAndNormSets fuel g arg normSet st of
          None \<Rightarrow> True | Some (Inl e) \<Rightarrow> True | Some (Inr st') \<Rightarrow> visited_inv g topNode st'"
    using assms(1,2)
  proof (rule propagation_rule[where I = "visited_inv g topNode"
          and Q = "\<lambda>arg _. arg \<in> (gedges g)\<^sup>* `` {topNode}" and E = "\<lambda>_. True", rotated -2])
    show "\<And>arg normSet server. arg \<in> (gedges g)\<^sup>* `` {topNode} \<Longrightarrow> server \<in> set (servers g arg) \<Longrightarrow>
            isValueServer g server arg \<Longrightarrow> server \<in> (gedges g)\<^sup>* `` {topNode}"
      by (auto simp: gedges_def intro: rtrancl_into_rtrancl)
  qed (simp_all add: visited_inv_visit)
  with assms(3) show ?thesis by simp
qed

lemma edges_reach_subset:
  "edges (\<lambda>n. if n \<in> (gedges g)\<^sup>* `` {topNode} then Some (sort_unique (servers g n)) else None)
   \<subseteq> gedges g"
  by (auto simp: edges_def gedges_def split: if_splits)

lemma reach_in_table:
  assumes "(k, v) \<in> (gedges g)\<^sup>*" "k \<in> (gedges g)\<^sup>* `` {topNode}"
  shows "(k, v) \<in> (edges (\<lambda>n. if n \<in> (gedges g)\<^sup>* `` {topNode}
                                  then Some (sort_unique (servers g n)) else None))\<^sup>*"
  using assms
proof (induction rule: rtrancl_induct)
  case base
  then show ?case by simp
next
  case (step y z)
  from step.hyps(1) step.prems have "y \<in> (gedges g)\<^sup>* `` {topNode}" by auto
  with step.hyps(2) have "(y, z) \<in> edges (\<lambda>n. if n \<in> (gedges g)\<^sup>* `` {topNode}
                                  then Some (sort_unique (servers g n)) else None)"
    by (auto simp: edges_def gedges_def)
  with step.IH[OF step.prems] show ?case by (rule rtrancl_into_rtrancl)
qed

lemma table_reach_iff:
  assumes "k \<in> (gedges g)\<^sup>* `` {topNode}"
  shows "((k, v) \<in> (edges (\<lambda>n. if n \<in> (gedges g)\<^sup>* `` {topNode}
                                  then Some (sort_unique (servers g n)) else None))\<^sup>*)
         = ((k, v) \<in> (gedges g)\<^sup>*)"
  using reach_in_table[OF _ assms] rtrancl_mono[OF edges_reach_subset[of g topNode]] by blast

lemma rank_reach: "(a, b) \<in> (gedges g)\<^sup>* \<Longrightarrow> ranked_from g rank a \<Longrightarrow> rank b \<le> rank a"
proof (induction rule: rtrancl_induct)
  case base
  then show ?case by simp
next
  case (step y z)
  from step.hyps(1,2) step.prems have "rank z < rank y"
    by (auto simp: ranked_from_def gedges_def)
  with step.IH[OF step.prems] show ?case by simp
qed

lemma dependsOn_checker_for:
  assumes "ranked_from g rank topNode" "rank topNode < fuel" "checker_for g topNode ck"
    and "key \<in> (gedges g)\<^sup>* `` {topNode}"
  shows "\<exists>ck'. dependsOn fuel ck key v = Some (Inr ((key, v) \<in> (gedges g)\<^sup>*, ck'))
           \<and> checker_for g topNode ck'"
proof -
  let ?sl = "\<lambda>n. if n \<in> (gedges g)\<^sup>* `` {topNode} then Some (sort_unique (servers g n)) else None"
  have sl: "serverLists ck = ?sl" and m: "memo_ok ?sl (results ck)"
    using assms(3) by (auto simp: checker_for_def)
  have "rank key < fuel" using rank_reach[OF _ assms(1), of key] assms(2,4) by auto
  moreover have "?sl key \<noteq> None" using assms(4) by simp
  ultimately obtain ck' where
    "dependsOn fuel ck key v = Some (Inr ((key, v) \<in> (edges ?sl)\<^sup>*, ck'))"
    "serverLists ck' = ?sl" "memo_ok ?sl (results ck')"
    using dependsOn_sound[OF closed_reach ranked_reach[OF assms(1)] sl m, of key fuel v] by blast
  then show ?thesis using table_reach_iff[OF assms(4)] by (auto simp: checker_for_def)
qed

lemma find_eq: "find (\<lambda>n. n = a) xs = (if a \<in> set xs then Some a else None)"
  by (induction xs) auto

lemma clean_normSet_narrowed:
  assumes "ranked_from g rank topNode" "rank topNode < fuel" "key \<in> (gedges g)\<^sup>* `` {topNode}"
  shows "checker_for g topNode ck \<Longrightarrow>
         clean_normSet fuel nodes key s ck actual = Some (Inr (ck', actual')) \<Longrightarrow>
         actual' = foldl add_silent actual (filter (\<lambda>v. (key, v) \<in> (gedges g)\<^sup>*) s)
         \<and> checker_for g topNode ck' \<and> set actual' \<subseteq> set actual \<union> set nodes"
proof (induction s arbitrary: ck actual)
  case Nil
  then show ?case by simp
next
  case (Cons narg rest)
  from dependsOn_checker_for[OF assms(1,2) Cons.prems(1) assms(3), of narg] obtain ck1 where
    d: "dependsOn fuel ck key narg = Some (Inr ((key, narg) \<in> (gedges g)\<^sup>*, ck1))"
    and c1: "checker_for g topNode ck1" by blast
  show ?case
  proof (cases "(key, narg) \<in> (gedges g)\<^sup>*")
    case True
    with d Cons.prems(2) have n: "narg \<in> set nodes"
      and r: "clean_normSet fuel nodes key rest ck1 (add_silent actual narg) = Some (Inr (ck', actual'))"
      by (auto simp: find_eq split: if_splits)
    from Cons.IH[OF c1 r] True n show ?thesis by (auto simp: add_silent_def split: if_splits)
  next
    case False
    with d Cons.prems(2)
    have r: "clean_normSet fuel nodes key rest ck1 actual = Some (Inr (ck', actual'))" by simp
    from Cons.IH[OF c1 r] False show ?thesis by auto
  qed
qed

lemma clean_normSets_narrowed:
  assumes "ranked_from g rank topNode" "rank topNode < fuel"
  shows "checker_for g topNode ck \<Longrightarrow> fst ` set items \<subseteq> (gedges g)\<^sup>* `` {topNode} \<Longrightarrow>
         clean_normSets fuel nodes items ck = Some (Inr (ck', items')) \<Longrightarrow>
         items' = map (\<lambda>(key, s). (key, narrowed g key s)) items
         \<and> (\<forall>(key, s)\<in>set items'. set s \<subseteq> set nodes)"
proof (induction items arbitrary: ck ck' items')
  case Nil
  then show ?case by simp
next
  case (Cons item items)
  obtain key s where item: "item = (key, s)" by (cases item)
  have k: "key \<in> (gedges g)\<^sup>* `` {topNode}" and ks: "fst ` set items \<subseteq> (gedges g)\<^sup>* `` {topNode}"
    using Cons.prems(2) item by auto
  show ?case
  proof (cases "s = []")
    case True
    with Cons.prems(3) item obtain rest' where
      r: "clean_normSets fuel nodes items ck = Some (Inr (ck', rest'))" and i: "items' = (key, s) # rest'"
      by (auto split: option.splits sum.splits)
    from Cons.IH[OF Cons.prems(1) ks r] i item True show ?thesis by (simp add: narrowed_def)
  next
    case False
    with Cons.prems(3) item obtain ck1 actual rest' where
      c: "clean_normSet fuel nodes key s ck [] = Some (Inr (ck1, actual))"
      and r: "clean_normSets fuel nodes items ck1 = Some (Inr (ck', rest'))"
      and i: "items' = (key, actual) # rest'"
      by (auto split: option.splits sum.splits)
    from clean_normSet_narrowed[OF assms k Cons.prems(1) c]
    have a: "actual = narrowed g key s" "checker_for g topNode ck1" "set actual \<subseteq> set nodes"
      by (auto simp: narrowed_def)
    from Cons.IH[OF a(2) ks r] i item a(1,3) show ?thesis by simp
  qed
qed

lemma replace_pdfs_wrapped:
  "replace_pdfs nodes ns (w, newNodes) = Inr (w', newNodes') \<Longrightarrow>
   w_normSets w' = w_normSets w
   \<and> (\<forall>W P s. wrapped (graph w') W = Some (P, s) \<longrightarrow>
         wrapped (graph w) W = Some (P, s) \<or> map_of (w_normSets w) P = Some s)"
proof (induction ns arbitrary: w newNodes)
  case Nil
  then show ?case by simp
next
  case (Cons node rest)
  note run = Cons.prems(1)[unfolded replace_pdfs_Cons]
  show ?case
  proof (cases "isPdf (graph w) node")
    case False
    with run have "replace_pdfs nodes rest (w, newNodes) = Inr (w', newNodes')" by simp
    then show ?thesis by (rule Cons.IH)
  next
    case True
    show ?thesis
    proof (cases "map_of (w_normSets w) node")
      case None
      with run True show ?thesis by simp
    next
      case (Some s)
      show ?thesis
      proof (cases "s = []")
        case e: True
        with True Some run have "replace_pdfs nodes rest (w, newNodes) = Inr (w', newNodes')"
          by simp
        then show ?thesis by (rule Cons.IH)
      next
        case ne: False
        show ?thesis
        proof (cases "selfNormalized (graph w) node \<and> \<not> isCachedPdf (graph w) node")
          case skip: True
          let ?w1 = "w\<lparr>getValCalls := getValCalls w @ [(node, s)]\<rparr>"
          from True Some ne skip run
          have "replace_pdfs nodes rest (?w1, newNodes) = Inr (w', newNodes')" by simp
          from Cons.IH[OF this] show ?thesis by simp
        next
          case wrap: False
          let ?w2 = "wrap_step nodes node s w"
          from wrap have c: "(selfNormalized (graph w) node \<and> \<not> isCachedPdf (graph w) node) = False"
            by simp
          from True Some ne run
          have "replace_pdfs nodes rest (?w2, newNodes @ [fresh (graph w)]) = Inr (w', newNodes')"
            unfolding c by simp
          from Cons.IH[OF this] Some show ?thesis
            by (auto simp: wrap_step_static wrap_step_fields split: if_splits)
        qed
      qed
    qed
  qed
qed

subsection \<open>The unfolding returns\<close>






lemma narrowed_when_unfolded:
  assumes "acyclic_by (graph w) rank" and "rank topNode < fuel"
    and "w_normSets w = []" and "normSet \<noteq> []"
    and propagated: "treeNodeServerListAndNormSets fuel (graph w) topNode (sort normSet)
                 \<lparr>p_list = [], normSets = [], entered = []\<rparr> = Some (Inr st)"
    and run: "unfoldIntegrals fuel topNode normSet w = Some (Inr (w', newNodes))"
  shows "w_normSets w'
           = map (\<lambda>(key, s). (key, foldl add_silent []
                                     (filter (\<lambda>v. (key, v) \<in> (gedges (graph w))\<^sup>*) s)))
               (normSets st)
         \<and> (\<forall>(key, s)\<in>set (w_normSets w'). set s \<subseteq> set (p_list st))
         \<and> (\<forall>W P s. wrapped (graph w') W = Some (P, s) \<longrightarrow>
               wrapped (graph w) W = Some (P, s) \<or> map_of (w_normSets w') P = Some s)"
proof -
  let ?g = "graph w"
  note rf = ranked_from_acyclic[OF assms(1), of topNode]
  from GraphChecker_serverLists[OF rf assms(2)] obtain ck where
    ck: "GraphChecker fuel ?g topNode = Some ck" and cf: "checker_for ?g topNode ck"
    by (auto simp: checker_for_def memo_ok_def)
  have "visited_inv ?g topNode \<lparr>p_list = [], normSets = [], entered = []\<rparr>"
    by (simp add: visited_inv_def)
  from propagation_visited[OF this _ propagated] have v: "visited_inv ?g topNode st" by simp
  from run assms(3,4) ck propagated obtain ck' items' where
    c: "clean_normSets fuel (p_list st) (normSets st) ck = Some (Inr (ck', items'))"
    and r: "replace_pdfs (p_list st) (p_list st) (w\<lparr>w_normSets := items'\<rparr>, []) = Inr (w', newNodes)"
    by (auto simp: unfoldIntegrals_def Let_def split: option.splits sum.splits)
  have "fst ` set (normSets st) \<subseteq> (gedges ?g)\<^sup>* `` {topNode}"
    using v by (auto simp: visited_inv_def)
  from clean_normSets_narrowed[OF rf assms(2) cf this c]
  have i: "items' = map (\<lambda>(key, s). (key, narrowed ?g key s)) (normSets st)"
    and n: "\<forall>(key, s)\<in>set items'. set s \<subseteq> set (p_list st)" by blast+
  from replace_pdfs_wrapped[OF r]
  have "w_normSets w' = items'"
    and "\<forall>W P s. wrapped (graph w') W = Some (P, s) \<longrightarrow>
           wrapped ?g W = Some (P, s) \<or> map_of items' P = Some s" by simp_all
  with i n show ?thesis by (simp add: narrowed_def[abs_def])
qed

text \<open>
  In the graph \<open>narrowing\<close> both pdfs are recorded with the variables 3 and 4; the pdf 1
  keeps the variable 3 and the pdf 2 the variable 4, and the wrappers 5 and 6 carry
  these sets.
\<close>

lemma narrowing_propagation:
  "treeNodeServerListAndNormSets 3 narrowing 0 (sort [3, 4])
     \<lparr>p_list = [], normSets = [], entered = []\<rparr>
   = Some (Inr \<lparr>p_list = [0, 1, 3, 2, 4], normSets = [(1, [3, 4]), (2, [3, 4])],
                entered = [0, 1, 3, 2, 4]\<rparr>)"
  by code_simp

lemma narrowing_unfold:
  "(case unfoldIntegrals 3 0 [3, 4]
           \<lparr>graph = narrowing, w_normSets = [], replacedArgs = [], newArgs = [], getValCalls = []\<rparr> of
      Some (Inr (w', nn)) \<Rightarrow> Some (w_normSets w', nn, wrapped (graph w') 5, wrapped (graph w') 6)
    | _ \<Rightarrow> None)
   = Some ([(1, [3]), (2, [4])], [5, 6], Some (1, [3]), Some (2, [4]))"
  by code_simp

lemma shapeonly_unfold:
  "unfoldIntegrals 3 0 [1, 2]
     \<lparr>graph = shapeonly, w_normSets = [], replacedArgs = [], newArgs = [], getValCalls = []\<rparr>
   = Some (Inl NullDereference)"
proof -
  have "(case unfoldIntegrals 3 0 [1, 2]
           \<lparr>graph = shapeonly, w_normSets = [], replacedArgs = [], newArgs = [], getValCalls = []\<rparr> of
           Some (Inl e) \<Rightarrow> Some e | _ \<Rightarrow> None) = Some NullDereference"
    by code_simp
  then show ?thesis by (simp split: option.splits sum.splits)
qed

lemma shapeonly_construction:
  "NormalizationIntegralUnfolder 4 0 [1, 2] shapeonly = Some (Inl NullDereference)"
proof -
  have "(case NormalizationIntegralUnfolder 4 0 [1, 2] shapeonly of
           Some (Inl e) \<Rightarrow> Some e | _ \<Rightarrow> None) = Some NullDereference"
    by code_simp
  then show ?thesis by (simp split: option.splits sum.splits)
qed

lemma shapeonly_acyclic: "acyclic_by shapeonly (\<lambda>n. if n = 0 then 1 else 0)"
  by (simp add: acyclic_by_def shapeonly_def plain_graph_def)

text \<open>
  C4 fails on the graph \<open>shapeonly\<close>, which is acyclic.  The pdf 0 has the servers 1 and
  2, and 2 is not a value server of it.  The propagation records the set of 1 and 2 for
  the pdf and visits the nodes 0 and 1 only; the checker, which holds every server of a
  node, answers that 0 depends on 2; the collection of the visited nodes has no node 2,
  and \<^verbatim>\<open>unfoldIntegrals\<close>, and with it the constructor, ends at
  \<^verbatim>\<open>*nodes.find(*narg)\<close> with the null pointer instead of narrowing the set.
\<close>

theorem narrowing_null_dereference:
  "isPdf shapeonly 0 \<and> servers shapeonly 0 = [1, 2] \<and> \<not> isValueServer shapeonly 2 0
   \<and> treeNodeServerListAndNormSets 3 shapeonly 0 (sort [1, 2])
        \<lparr>p_list = [], normSets = [], entered = []\<rparr>
       = Some (Inr \<lparr>p_list = [0, 1], normSets = [(0, [1, 2])], entered = [0, 1]\<rparr>)
   \<and> (case GraphChecker 3 shapeonly 0 of
         Some ck \<Rightarrow> (case dependsOn 3 ck 0 2 of Some (Inr (t, ck')) \<Rightarrow> Some t | _ \<Rightarrow> None)
       | None \<Rightarrow> None) = Some True
   \<and> find (\<lambda>n. n = 2) [0, 1::nat] = None
   \<and> unfoldIntegrals 3 0 [1, 2]
        \<lparr>graph = shapeonly, w_normSets = [], replacedArgs = [], newArgs = [], getValCalls = []\<rparr>
       = Some (Inl NullDereference)
   \<and> NormalizationIntegralUnfolder 4 0 [1, 2] shapeonly = Some (Inl NullDereference)"
proof -
  have "isPdf shapeonly 0" "servers shapeonly 0 = [1, 2]" "\<not> isValueServer shapeonly 2 0"
    by (simp_all add: shapeonly_def plain_graph_def)
  moreover have "treeNodeServerListAndNormSets 3 shapeonly 0 (sort [1, 2])
        \<lparr>p_list = [], normSets = [], entered = []\<rparr>
       = Some (Inr \<lparr>p_list = [0, 1], normSets = [(0, [1, 2])], entered = [0, 1]\<rparr>)"
    by code_simp
  moreover have "(case GraphChecker 3 shapeonly 0 of
         Some ck \<Rightarrow> (case dependsOn 3 ck 0 2 of Some (Inr (t, ck')) \<Rightarrow> Some t | _ \<Rightarrow> None)
       | None \<Rightarrow> None) = Some True"
    by code_simp
  ultimately show ?thesis using shapeonly_unfold shapeonly_construction by simp
qed


section \<open>Folding the integrals back\<close>

lemma fwd_Nil [simp]: "fwd [] [] = (\<lambda>s. s)"
  by (simp add: fwd_def fun_eq_iff)














lemma findNewServer_servers_update [simp]:
  "findNewServer (g\<lparr>servers := S\<rparr>) ps = findNewServer g ps"
  by (simp add: findNewServer_def fun_eq_iff)



lemma RooAddition_fields:
  "fst (RooAddition topNode g) = fresh g"
  "live (snd (RooAddition topNode g)) = live g @ [fresh g]"
  "servers (snd (RooAddition topNode g)) = (servers g)(fresh g := [topNode])"
  "attribs (snd (RooAddition topNode g)) = (attribs g)(fresh g := {})"
  "isCachedPdf (snd (RooAddition topNode g)) = (isCachedPdf g)(fresh g := False)"
  by (simp_all add: RooAddition_def Let_def)

lemma wf_graph_RooAddition:
  assumes "wf_graph g rank" "topNode \<in> set (live g)"
  shows "wf_graph (snd (RooAddition topNode g)) (rank(fresh g := Suc (rank topNode)))"
  using assms fresh_not_live[of g]
  by (auto simp: wf_graph_def RooAddition_fields)

lemma wf_graph_reach_live:
  assumes "wf_graph g rank" "(a, b) \<in> (gedges g)\<^sup>*" "a \<in> set (live g)"
  shows "b \<in> set (live g)"
  using assms(2,1,3)
  by (induction rule: rtrancl_induct) (auto simp: wf_graph_def gedges_def)






lemma wf_graph_ranked_from:
  assumes "wf_graph g rank" "a \<in> set (live g)"
  shows "ranked_from g rank a"
  unfolding ranked_from_def
proof (intro ballI)
  fix n s assume "n \<in> (gedges g)\<^sup>* `` {a}" "s \<in> set (servers g n)"
  then have "n \<in> set (live g)" using wf_graph_reach_live[OF assms(1) _ assms(2)] by auto
  with assms(1) \<open>s \<in> set (servers g n)\<close> show "rank s < rank n" by (auto simp: wf_graph_def)
qed









section \<open>Conflicts and visits along the propagation\<close>

lemma propagate_servers_append:
  "propagate_servers rec g arg normSet (pre @ ss) st
   = (case propagate_servers rec g arg normSet pre st of
        Some (Inr st1) \<Rightarrow> propagate_servers rec g arg normSet ss st1
      | r \<Rightarrow> r)"
proof (induction pre arbitrary: st)
  case Nil
  then show ?case by simp
next
  case (Cons a pre)
  show ?case
    by (simp add: Cons.IH Let_def split: option.splits sum.splits)
qed

lemma at_server_conflict:
  assumes "at_server g fuel arg normSet st parent pns server st'"
    and "isValueServer g server parent"
    and "map_of (normSets st') server = Some found"
    and "length found \<noteq> length (serverNormSet g parent pns server)
         \<or> \<not> hasSameLayout (serverNormSet g parent pns server) found"
  shows "treeNodeServerListAndNormSets fuel g arg normSet st
         = Some (Inl (RuntimeError
              (conflictMessage server (serverNormSet g parent pns server) parent found)))"
  using assms
proof (induction rule: at_server.induct)
  case (here st arg pre server rest fuel normSet st1)
  then show ?case
    by (simp add: propagate_servers_append Let_def)
next
  case (below st arg pre server rest fuel normSet st1 parent pns s st2)
  from below.IH[OF below.prems] below.hyps(1-6) show ?case
    by (simp add: propagate_servers_append Let_def)
qed


lemma at_server_rule:
  assumes visit: "\<And>arg normSet st. I st \<Longrightarrow> Q arg normSet \<Longrightarrow> map_of (normSets st) arg = None \<Longrightarrow>
            I (visit g arg normSet st)"
    and sns: "\<And>arg normSet server. Q arg normSet \<Longrightarrow> server \<in> set (servers g arg) \<Longrightarrow>
            isValueServer g server arg \<Longrightarrow> Q server (serverNormSet g arg normSet server)"
  shows "at_server g fuel arg normSet st parent pns server st' \<Longrightarrow> I st \<Longrightarrow> Q arg normSet \<Longrightarrow>
         I st' \<and> Q parent pns"
proof (induction rule: at_server.induct)
  case (here st arg pre server rest fuel normSet st1)
  have "case propagate_servers (treeNodeServerListAndNormSets fuel g) g arg normSet pre
               (visit g arg normSet st) of
          None \<Rightarrow> True | Some (Inl e) \<Rightarrow> True | Some (Inr st') \<Rightarrow> I st'"
  proof (rule propagate_servers_rule[where I = I and Q = Q and E = "\<lambda>_. True"])
    show "\<And>server normSet st. I st \<Longrightarrow> Q server normSet \<Longrightarrow>
            case treeNodeServerListAndNormSets fuel g server normSet st of
              None \<Rightarrow> True | Some (Inl e) \<Rightarrow> True | Some (Inr st') \<Rightarrow> I st'"
      by (rule propagation_rule[where I = I and Q = Q and E = "\<lambda>_. True", OF visit sns]) simp_all
    show "\<And>s. s \<in> set pre \<Longrightarrow> isValueServer g s arg \<Longrightarrow> Q s (serverNormSet g arg normSet s)"
      using sns[OF here.prems(2)] here.hyps(3) by simp
    show "I (visit g arg normSet st)" by (rule visit[OF here.prems here.hyps(1)])
  qed simp
  with here.hyps(4) here.prems(2) show ?case by simp
next
  case (below st arg pre server rest fuel normSet st1 parent pns s st2)
  have "case propagate_servers (treeNodeServerListAndNormSets fuel g) g arg normSet pre
               (visit g arg normSet st) of
          None \<Rightarrow> True | Some (Inl e) \<Rightarrow> True | Some (Inr st') \<Rightarrow> I st'"
  proof (rule propagate_servers_rule[where I = I and Q = Q and E = "\<lambda>_. True"])
    show "\<And>server normSet st. I st \<Longrightarrow> Q server normSet \<Longrightarrow>
            case treeNodeServerListAndNormSets fuel g server normSet st of
              None \<Rightarrow> True | Some (Inl e) \<Rightarrow> True | Some (Inr st') \<Rightarrow> I st'"
      by (rule propagation_rule[where I = I and Q = Q and E = "\<lambda>_. True", OF visit sns]) simp_all
    show "\<And>s. s \<in> set pre \<Longrightarrow> isValueServer g s arg \<Longrightarrow> Q s (serverNormSet g arg normSet s)"
      using sns[OF below.prems(2)] below.hyps(3) by simp
    show "I (visit g arg normSet st)" by (rule visit[OF below.prems below.hyps(1)])
  qed simp
  with below.hyps(4) have "I st1" by simp
  moreover have "Q server (serverNormSet g arg normSet server)"
    using sns[OF below.prems(2) _ below.hyps(5)] below.hyps(3) by simp
  ultimately show ?case by (rule below.IH)
qed

lemma at_server_sorted:
  assumes "at_server g fuel arg normSet st parent pns server st'"
    and "all_sorted st" and "sorted normSet"
  shows "all_sorted st' \<and> sorted pns"
  using assms
  by (rule at_server_rule[where I = all_sorted and Q = "\<lambda>_. sorted", rotated 2])
     (simp_all add: all_sorted_visit sorted_serverNormSet)

lemma at_server_once:
  assumes "at_server g fuel arg normSet st parent pns server st'" and "once_inv g st"
  shows "once_inv g st'"
proof -
  from assms have "once_inv g st' \<and> True"
    by (rule at_server_rule[where I = "once_inv g" and Q = "\<lambda>_ _. True", rotated 2])
       (simp_all add: once_inv_visit)
  then show ?thesis by simp
qed


lemma propagate_servers_snoc:
  assumes "propagate_servers rec g arg normSet pre st0 = Some (Inr st)"
  shows "propagate_servers rec g arg normSet (pre @ [server]) st0
         = propagate_servers rec g arg normSet [server] st"
  using assms by (simp add: propagate_servers_append)

lemma propagate_servers_error_at:
  assumes IH: "\<And>server ns st e. treeNodeServerListAndNormSets fuel g server ns st = Some (Inl e) \<Longrightarrow>
                 conflict_at g fuel server ns st e"
    and call: "map_of (normSets stc) arg = None" "isDerived g arg \<and> \<not> isFundamental g arg"
  shows "servers g arg = pre @ ss \<Longrightarrow>
         propagate_servers (treeNodeServerListAndNormSets fuel g) g arg normSet pre
           (visit g arg normSet stc) = Some (Inr st) \<Longrightarrow>
         propagate_servers (treeNodeServerListAndNormSets fuel g) g arg normSet ss st
           = Some (Inl e) \<Longrightarrow>
         conflict_at g (Suc fuel) arg normSet stc e"
proof (induction ss arbitrary: pre st)
  case Nil
  then show ?case by simp
next
  case (Cons server rest)
  let ?rec = "treeNodeServerListAndNormSets fuel g"
  let ?sns = "serverNormSet g arg normSet server"
  have split: "servers g arg = (pre @ [server]) @ rest" using Cons.prems(1) by simp
  have next_step: "conflict_at g (Suc fuel) arg normSet stc e"
    if "propagate_servers ?rec g arg normSet [server] st = Some (Inr st2)"
      and "propagate_servers ?rec g arg normSet rest st2 = Some (Inl e)" for st2
  proof (rule Cons.IH[OF split _ that(2)])
    show "propagate_servers ?rec g arg normSet (pre @ [server]) (visit g arg normSet stc)
          = Some (Inr st2)"
      using propagate_servers_snoc[OF Cons.prems(2)] that(1) by simp
  qed
  show ?case
  proof (cases "isValueServer g server arg")
    case False
    with Cons.prems(3) show ?thesis by (intro next_step[of st]) simp_all
  next
    case True
    show ?thesis
    proof (cases "map_of (normSets st) server")
      case (Some found)
      show ?thesis
      proof (cases "length found \<noteq> length ?sns \<or> \<not> hasSameLayout ?sns found")
        case bad: True
        with True Some Cons.prems(3)
        have e: "e = RuntimeError (conflictMessage server ?sns arg found)"
          by (simp add: Let_def)
        have "at_server g (Suc fuel) arg normSet stc arg normSet server st"
          by (rule at_server.here[OF call Cons.prems(1,2)])
        with True Some bad e show ?thesis unfolding conflict_at_def by blast
      next
        case False
        with True Some Cons.prems(3) show ?thesis
          by (intro next_step[of st]) (simp_all add: Let_def)
      qed
    next
      case None
      show ?thesis
      proof (cases "?rec server ?sns st")
        case n: None
        with True None Cons.prems(3) show ?thesis by (simp add: Let_def)
      next
        case (Some r)
        show ?thesis
        proof (cases r)
          case (Inl e')
          with Some True None Cons.prems(3) have "e' = e" by (simp add: Let_def)
          with IH[OF Some[unfolded Inl]] have "conflict_at g fuel server ?sns st e" by simp
          then obtain parent pns s st' found where
            a: "at_server g fuel server ?sns st parent pns s st'"
            and r: "isValueServer g s parent" "map_of (normSets st') s = Some found"
              "length found \<noteq> length (serverNormSet g parent pns s)
                 \<or> \<not> hasSameLayout (serverNormSet g parent pns s) found"
              "e = RuntimeError (conflictMessage s (serverNormSet g parent pns s) parent found)"
            unfolding conflict_at_def by blast
          have "at_server g (Suc fuel) arg normSet stc parent pns s st'"
            by (rule at_server.below[OF call Cons.prems(1,2) True None a])
          with r show ?thesis unfolding conflict_at_def by blast
        next
          case (Inr st2)
          with Some True None Cons.prems(3) show ?thesis
            by (intro next_step[of st2]) (simp_all add: Let_def)
        qed
      qed
    qed
  qed
qed

lemma propagation_error_at:
  "treeNodeServerListAndNormSets fuel g arg normSet st = Some (Inl e) \<Longrightarrow>
   conflict_at g fuel arg normSet st e"
proof (induction fuel arbitrary: arg normSet st e)
  case 0
  then show ?case by simp
next
  case (Suc fuel)
  from Suc.prems have call: "map_of (normSets st) arg = None"
    "isDerived g arg \<and> \<not> isFundamental g arg"
    and run: "propagate_servers (treeNodeServerListAndNormSets fuel g) g arg normSet
                (servers g arg) (visit g arg normSet st) = Some (Inl e)"
    by (auto simp: Let_def split: if_splits)
  show ?case
    by (rule propagate_servers_error_at[where pre = "[]", OF Suc.IH call _ _ run]) simp_all
qed

lemma construction_error_at:
  assumes "NormalizationIntegralUnfolder fuel topNode normSet g = Some (Inl (RuntimeError msg))"
  shows "conflict_at (snd (RooAddition topNode g)) fuel (fst (RooAddition topNode g))
           (sort normSet) \<lparr>p_list = [], normSets = [], entered = []\<rparr> (RuntimeError msg)"
proof -
  let ?g1 = "snd (RooAddition topNode g)" and ?T = "fst (RooAddition topNode g)"
  from assms have "unfoldIntegrals fuel ?T normSet
      \<lparr>graph = ?g1, w_normSets = [], replacedArgs = [], newArgs = [], getValCalls = []\<rparr>
    = Some (Inl (RuntimeError msg))"
    by (auto simp: NormalizationIntegralUnfolder_def Let_def
        split: prod.splits option.splits sum.splits)
  then have "treeNodeServerListAndNormSets fuel ?g1 ?T (sort normSet)
               \<lparr>p_list = [], normSets = [], entered = []\<rparr> = Some (Inl (RuntimeError msg))"
    using clean_normSets_error[of fuel _ _ _ msg] replace_pdfs_error[of _ _ _ msg]
    by (auto simp: unfoldIntegrals_def Let_def
        split: if_splits option.splits sum.splits prod.splits)
  then show ?thesis by (rule propagation_error_at)
qed

text \<open>
  C2, as the code has it.  Take the propagation that the constructor runs, on a graph
  whose live nodes have live servers only and a rank that falls along every edge, with
  fuel above the rank of the top node and a normalization set that is not empty.  When
  it comes, in the loop of a node \<open>parent\<close>, to a value server that has a recorded
  normalization set of another size or another content than the set demanded for it,
  the constructor returns the runtime error whose message gives the class and the name
  of the server, the demanded set, the class and the name of \<open>parent\<close>, the recorded
  set and then the words \<^verbatim>\<open>first requested by other client\<close>; both sets are sorted and
  they differ.  The message names the server and \<open>parent\<close> and no other node: it has
  no part for the node that requested the recorded set.
\<close>

theorem conflict_is_reported:
  assumes "wf_graph g rank" and "topNode \<in> set (live g)" and "Suc (rank topNode) < fuel"
    and "normSet \<noteq> []"
    and reach: "at_server (snd (RooAddition topNode g)) fuel (fst (RooAddition topNode g))
                  (sort normSet) \<lparr>p_list = [], normSets = [], entered = []\<rparr> parent pns server st"
    and vsrv: "isValueServer (snd (RooAddition topNode g)) server parent"
    and recorded: "map_of (normSets st) server = Some recorded"
    and demanded: "demanded = serverNormSet (snd (RooAddition topNode g)) parent pns server"
    and differ: "length recorded \<noteq> length demanded \<or> \<not> hasSameLayout demanded recorded"
  shows "\<exists>msg. NormalizationIntegralUnfolder fuel topNode normSet g
                 = Some (Inl (RuntimeError msg))
           \<and> msg =
             [ClassName server, Str ''::'', GetName server,
              Str '' is requested to be evaluated with two different normalization sets in the same model!'',
              Str ('' This is not supported yet. The conflicting norm sets are:'' @ [CHR 0x0A] @ ''    RooArgSet''),
              PrintValue demanded,
              Str '' requested by '', ClassName parent, Str ''::'', GetName parent,
              Str ([CHR 0x0A] @ ''    RooArgSet''),
              PrintValue recorded,
              Str '' first requested by other client'']
           \<and> {n. GetName n \<in> set msg \<or> ClassName n \<in> set msg} = {server, parent}
           \<and> sorted demanded \<and> sorted recorded \<and> demanded \<noteq> recorded"
proof -
  let ?T = "fresh g" and ?g1 = "snd (RooAddition topNode g)"
  let ?rank = "rank(?T := Suc (rank topNode))"
  let ?st0 = "\<lparr>p_list = [], normSets = [], entered = []\<rparr>"
  have "wf_graph ?g1 ?rank" by (rule wf_graph_RooAddition[OF assms(1,2)])
  moreover have "?T \<in> set (live ?g1)" by (simp add: RooAddition_fields)
  ultimately have rf: "ranked_from ?g1 ?rank ?T" by (rule wf_graph_ranked_from)
  have "?rank ?T < fuel" using assms(3) by simp
  from GraphChecker_serverLists[OF rf this] obtain ck where
    ck: "GraphChecker fuel ?g1 ?T = Some ck" by blast
  from reach have reach': "at_server ?g1 fuel ?T (sort normSet) ?st0 parent pns server st"
    by (simp add: RooAddition_fields)
  from at_server_conflict[OF reach' vsrv recorded differ[unfolded demanded]]
  have run: "treeNodeServerListAndNormSets fuel ?g1 ?T (sort normSet) ?st0
             = Some (Inl (RuntimeError (conflictMessage server demanded parent recorded)))"
    by (simp add: demanded)
  have "unfoldIntegrals fuel ?T normSet
          \<lparr>graph = ?g1, w_normSets = [], replacedArgs = [], newArgs = [], getValCalls = []\<rparr>
        = Some (Inl (RuntimeError (conflictMessage server demanded parent recorded)))"
    using assms(4) ck run by (simp add: unfoldIntegrals_def Let_def)
  then have r: "NormalizationIntegralUnfolder fuel topNode normSet g
        = Some (Inl (RuntimeError (conflictMessage server demanded parent recorded)))"
    by (simp add: NormalizationIntegralUnfolder_def Let_def RooAddition_def)
  have "all_sorted ?st0" by (simp add: all_sorted_def)
  from at_server_sorted[OF reach' this] have s: "all_sorted st" "sorted pns" by simp_all
  from s(1) recorded have "sorted recorded" by (auto simp: all_sorted_def dest: map_of_SomeD)
  moreover have "sorted demanded" unfolding demanded by (rule sorted_serverNormSet[OF s(2)])
  moreover have "demanded \<noteq> recorded"
    using differ hasSameLayout_eq[of demanded recorded] by auto
  moreover have "{n. GetName n \<in> set (conflictMessage server demanded parent recorded)
                    \<or> ClassName n \<in> set (conflictMessage server demanded parent recorded)}
                 = {server, parent}"
    by (auto simp: conflictMessage_def)
  ultimately show ?thesis using r by (simp add: conflictMessage_def)
qed

lemma at_server_hereI:
  assumes "fuel = Suc k" and "map_of (normSets st) arg = None"
    and "isDerived g arg \<and> \<not> isFundamental g arg"
    and "servers g arg = pre @ server # rest"
    and "propagate_servers (treeNodeServerListAndNormSets k g) g arg normSet pre
           (visit g arg normSet st) = Some (Inr st1)"
  shows "at_server g fuel arg normSet st arg normSet server st1"
  unfolding assms(1) by (rule at_server.here[OF assms(2-5)])

lemma at_server_belowI:
  assumes "fuel = Suc k" and "map_of (normSets st) arg = None"
    and "isDerived g arg \<and> \<not> isFundamental g arg"
    and "servers g arg = pre @ server # rest"
    and "propagate_servers (treeNodeServerListAndNormSets k g) g arg normSet pre
           (visit g arg normSet st) = Some (Inr st1)"
    and "isValueServer g server arg" and "map_of (normSets st1) server = None"
    and "serverNormSet g arg normSet server = sns"
    and "at_server g k server sns st1 parent pns s st2"
  shows "at_server g fuel arg normSet st parent pns s st2"
  unfolding assms(1) using assms(9) unfolding assms(8)[symmetric]
  by (rule at_server.below[OF assms(2-7)])

lemma conflict_reach:
  "at_server (snd (RooAddition 0 conflict)) 5 (fst (RooAddition 0 conflict)) (sort [4])
     \<lparr>p_list = [], normSets = [], entered = []\<rparr> 2 [4] 3
     \<lparr>p_list = [6, 0, 1, 3, 4, 5, 2], normSets = [(1, [4]), (3, [4]), (2, [4])],
      entered = [6, 0, 1, 3, 4, 5, 2]\<rparr>"
proof -
  let ?g = "snd (RooAddition 0 conflict)"
  let ?s0 = "\<lparr>p_list = [], normSets = [], entered = []\<rparr>"
  let ?sa = "\<lparr>p_list = [6], normSets = [], entered = [6]\<rparr>"
  let ?sb = "\<lparr>p_list = [6, 0, 1, 3, 4, 5], normSets = [(1, [4]), (3, [4])],
             entered = [6, 0, 1, 3, 4, 5]\<rparr>"
  let ?sc = "\<lparr>p_list = [6, 0, 1, 3, 4, 5, 2], normSets = [(1, [4]), (3, [4]), (2, [4])],
             entered = [6, 0, 1, 3, 4, 5, 2]\<rparr>"
  have c: "at_server ?g 3 2 [4] ?sb 2 [4] 3 ?sc"
  proof (rule at_server_hereI[where k = 2 and pre = "[]" and rest = "[]"])
    show "(3::nat) = Suc 2" by simp
    show "map_of (normSets ?sb) 2 = None" by simp
    show "isDerived ?g 2 \<and> \<not> isFundamental ?g 2" by code_simp
    show "servers ?g 2 = [] @ [3]" by code_simp
    show "propagate_servers (treeNodeServerListAndNormSets 2 ?g) ?g 2 [4] []
            (visit ?g 2 [4] ?sb) = Some (Inr ?sc)" by code_simp
  qed
  have b: "at_server ?g 4 0 [4] ?sa 2 [4] 3 ?sc"
  proof (rule at_server_belowI[where k = 3 and pre = "[1]" and rest = "[]", OF _ _ _ _ _ _ _ _ c])
    show "(4::nat) = Suc 3" by simp
    show "map_of (normSets ?sa) 0 = None" by simp
    show "isDerived ?g 0 \<and> \<not> isFundamental ?g 0" by code_simp
    show "servers ?g 0 = [1] @ [2]" by code_simp
    show "propagate_servers (treeNodeServerListAndNormSets 3 ?g) ?g 0 [4] [1]
            (visit ?g 0 [4] ?sa) = Some (Inr ?sb)" by code_simp
    show "isValueServer ?g 2 0" by code_simp
    show "map_of (normSets ?sb) 2 = None" by simp
    show "serverNormSet ?g 0 [4] 2 = [4]" by code_simp
  qed
  have a: "at_server ?g 5 6 [4] ?s0 2 [4] 3 ?sc"
  proof (rule at_server_belowI[where k = 4 and pre = "[]" and rest = "[]", OF _ _ _ _ _ _ _ _ b])
    show "(5::nat) = Suc 4" by simp
    show "map_of (normSets ?s0) 6 = None" by simp
    show "isDerived ?g 6 \<and> \<not> isFundamental ?g 6" by code_simp
    show "servers ?g 6 = [] @ [0]" by code_simp
    show "propagate_servers (treeNodeServerListAndNormSets 4 ?g) ?g 6 [4] []
            (visit ?g 6 [4] ?s0) = Some (Inr ?sa)" by code_simp
    show "isValueServer ?g 0 6" by code_simp
    show "map_of (normSets ?sa) 0 = None" by simp
    show "serverNormSet ?g 6 [4] 0 = [4]" by code_simp
  qed
  have f: "fst (RooAddition 0 conflict) = 6" by (simp add: RooAddition_fields conflict_fresh)
  have s: "sort [4::nat] = [4]" by simp
  show ?thesis unfolding f s by (rule a)
qed

text \<open>
  In the graph \<open>conflict\<close> the propagation of the constructor comes, in the loop of the
  pdf 2, to the pdf 3, recorded with the variable 4 at the request of the pdf 1; the pdf
  2 demands the variable 5, and the constructor returns the error.
\<close>

theorem conflict_is_reported_witness:
  "wf_graph conflict (\<lambda>n. if n = 0 then 3 else if n \<le> 2 then 2 else if n = 3 then 1 else 0)
   \<and> 0 \<in> set (live conflict) \<and> [4] \<noteq> ([]::nat list)
   \<and> at_server (snd (RooAddition 0 conflict)) 5 (fst (RooAddition 0 conflict)) (sort [4])
        \<lparr>p_list = [], normSets = [], entered = []\<rparr> 2 [4] 3
        \<lparr>p_list = [6, 0, 1, 3, 4, 5, 2], normSets = [(1, [4]), (3, [4]), (2, [4])],
         entered = [6, 0, 1, 3, 4, 5, 2]\<rparr>
   \<and> isValueServer (snd (RooAddition 0 conflict)) 3 2
   \<and> map_of [(1, [4]), (3, [4]), (2, [4::nat])] (3::nat) = Some [4]
   \<and> serverNormSet (snd (RooAddition 0 conflict)) 2 [4] 3 = [5]
   \<and> \<not> hasSameLayout [5] [4::nat]
   \<and> NormalizationIntegralUnfolder 5 0 [4] conflict
       = Some (Inl (RuntimeError
           [ClassName 3, Str ''::'', GetName 3,
            Str '' is requested to be evaluated with two different normalization sets in the same model!'',
            Str ('' This is not supported yet. The conflicting norm sets are:'' @ [CHR 0x0A] @ ''    RooArgSet''),
            PrintValue [5],
            Str '' requested by '', ClassName 2, Str ''::'', GetName 2,
            Str ([CHR 0x0A] @ ''    RooArgSet''),
            PrintValue [4],
            Str '' first requested by other client'']))"
proof -
  let ?rank = "\<lambda>n::nat. if n = 0 then 3 else if n \<le> 2 then 2 else if n = 3 then 1 else (0::nat)"
  let ?g = "snd (RooAddition 0 conflict)"
  have wf: "wf_graph conflict ?rank"
    by (simp add: wf_graph_def conflict_def plain_graph_def conflict_servers_def)
  have t: "0 \<in> set (live conflict)" by (simp add: conflict_def plain_graph_def)
  have v: "isValueServer ?g 3 2" by code_simp
  have d: "serverNormSet ?g 2 [4] 3 = [5]" by code_simp
  have l: "\<not> hasSameLayout [5] [4::nat]" by (simp add: hasSameLayout_def)
  from conflict_is_reported[OF wf t _ _ conflict_reach v _ d[symmetric], of "[4]"] l
  have "NormalizationIntegralUnfolder 5 0 [4] conflict
       = Some (Inl (RuntimeError
           [ClassName 3, Str ''::'', GetName 3,
            Str '' is requested to be evaluated with two different normalization sets in the same model!'',
            Str ('' This is not supported yet. The conflicting norm sets are:'' @ [CHR 0x0A] @ ''    RooArgSet''),
            PrintValue [5],
            Str '' requested by '', ClassName 2, Str ''::'', GetName 2,
            Str ([CHR 0x0A] @ ''    RooArgSet''),
            PrintValue [4],
            Str '' first requested by other client'']))"
    by simp
  with wf t conflict_reach v d l show ?thesis by simp
qed

text \<open>
  C9, as the code has it.  The walk looks a node up in the table of normalization sets to
  tell whether it has been there, and only pdfs get an entry.  So a pdf is entered at
  most once: in a walk that completes, and up to every place that a walk comes to, which
  covers a walk that stops at a conflict.  At a server that has a recorded set the loop
  makes no recursive call, whatever that call would do: it reports the conflict, or
  goes on to the next server in the same state.
\<close>

theorem pdf_entered_at_most_once:
  assumes "isPdf g n" and "entered st = []"
  shows "(treeNodeServerListAndNormSets fuel g arg normSet st = Some (Inr st') \<longrightarrow>
            count_list (entered st') n \<le> 1)
         \<and> (at_server g fuel arg normSet st parent pns server st1 \<longrightarrow>
              count_list (entered st1) n \<le> 1)
         \<and> (map_of (normSets st1) server = Some recorded \<longrightarrow>
              propagate_servers rec g parent pns (server # rest) st1
              = (if isValueServer g server parent
                    \<and> (length recorded \<noteq> length (serverNormSet g parent pns server)
                         \<or> \<not> hasSameLayout (serverNormSet g parent pns server) recorded)
                 then Some (Inl (RuntimeError
                        (conflictMessage server (serverNormSet g parent pns server) parent recorded)))
                 else propagate_servers rec g parent pns rest st1))"
proof (intro conjI impI)
  have o: "once_inv g st" using assms(2) by (simp add: once_inv_def)
  {
    assume run: "treeNodeServerListAndNormSets fuel g arg normSet st = Some (Inr st')"
    from o have "case treeNodeServerListAndNormSets fuel g arg normSet st of
                 None \<Rightarrow> True | Some (Inl e) \<Rightarrow> True | Some (Inr st') \<Rightarrow> once_inv g st'"
      by (rule propagation_rule[where Q = "\<lambda>_ _. True" and E = "\<lambda>_. True" and I = "once_inv g", rotated -2])
         (simp_all add: once_inv_visit)
    with run assms(1) show "count_list (entered st') n \<le> 1" by (simp add: once_inv_def)
  }
  {
    assume "at_server g fuel arg normSet st parent pns server st1"
    from at_server_once[OF this o] assms(1) show "count_list (entered st1) n \<le> 1"
      by (simp add: once_inv_def)
  }
  {
    assume "map_of (normSets st1) server = Some recorded"
    then show "propagate_servers rec g parent pns (server # rest) st1
              = (if isValueServer g server parent
                    \<and> (length recorded \<noteq> length (serverNormSet g parent pns server)
                         \<or> \<not> hasSameLayout (serverNormSet g parent pns server) recorded)
                 then Some (Inl (RuntimeError
                        (conflictMessage server (serverNormSet g parent pns server) parent recorded)))
                 else propagate_servers rec g parent pns rest st1)"
      by (simp add: Let_def)
  }
qed


lemma shared_pdf_reach:
  "at_server shared_pdf 4 0 [4] \<lparr>p_list = [], normSets = [], entered = []\<rparr> 2 [4] 3
     \<lparr>p_list = [0, 1, 3, 4, 2], normSets = [(1, [4]), (3, [4]), (2, [4])],
      entered = [0, 1, 3, 4, 2]\<rparr>"
proof -
  let ?g = shared_pdf
  let ?s0 = "\<lparr>p_list = [], normSets = [], entered = []\<rparr>"
  let ?sb = "\<lparr>p_list = [0, 1, 3, 4], normSets = [(1, [4]), (3, [4])], entered = [0, 1, 3, 4]\<rparr>"
  let ?sc = "\<lparr>p_list = [0, 1, 3, 4, 2], normSets = [(1, [4]), (3, [4]), (2, [4])],
             entered = [0, 1, 3, 4, 2]\<rparr>"
  have c: "at_server ?g 3 2 [4] ?sb 2 [4] 3 ?sc"
  proof (rule at_server_hereI[where k = 2 and pre = "[]" and rest = "[]"])
    show "(3::nat) = Suc 2" by simp
    show "map_of (normSets ?sb) 2 = None" by simp
    show "isDerived ?g 2 \<and> \<not> isFundamental ?g 2" by code_simp
    show "servers ?g 2 = [] @ [3]" by code_simp
    show "propagate_servers (treeNodeServerListAndNormSets 2 ?g) ?g 2 [4] []
            (visit ?g 2 [4] ?sb) = Some (Inr ?sc)" by code_simp
  qed
  show ?thesis
  proof (rule at_server_belowI[where k = 3 and pre = "[1]" and rest = "[]", OF _ _ _ _ _ _ _ _ c])
    show "(4::nat) = Suc 3" by simp
    show "map_of (normSets ?s0) 0 = None" by simp
    show "isDerived ?g 0 \<and> \<not> isFundamental ?g 0" by code_simp
    show "servers ?g 0 = [1] @ [2]" by code_simp
    show "propagate_servers (treeNodeServerListAndNormSets 3 ?g) ?g 0 [4] [1]
            (visit ?g 0 [4] ?s0) = Some (Inr ?sb)" by code_simp
    show "isValueServer ?g 2 0" by code_simp
    show "map_of (normSets ?sb) 2 = None" by simp
    show "serverNormSet ?g 0 [4] 2 = [4]" by code_simp
  qed
qed

lemma shared_pdf_run:
  "treeNodeServerListAndNormSets 4 shared_pdf 0 [4] \<lparr>p_list = [], normSets = [], entered = []\<rparr>
   = Some (Inr \<lparr>p_list = [0, 1, 3, 4, 2], normSets = [(1, [4]), (3, [4]), (2, [4])],
                entered = [0, 1, 3, 4, 2]\<rparr>)"
  by code_simp

text \<open>
  In the graph \<open>shared_pdf\<close> the walk comes to the pdf 3 a second time in the loop of the
  pdf 2, finds its recorded set equal to the demanded one and goes on; the pdf 3 is
  entered once.
\<close>

theorem pdf_entered_at_most_once_witness:
  "isPdf shared_pdf 3
   \<and> treeNodeServerListAndNormSets 4 shared_pdf 0 [4] \<lparr>p_list = [], normSets = [], entered = []\<rparr>
       = Some (Inr \<lparr>p_list = [0, 1, 3, 4, 2], normSets = [(1, [4]), (3, [4]), (2, [4])],
                    entered = [0, 1, 3, 4, 2]\<rparr>)
   \<and> at_server shared_pdf 4 0 [4] \<lparr>p_list = [], normSets = [], entered = []\<rparr> 2 [4] 3
        \<lparr>p_list = [0, 1, 3, 4, 2], normSets = [(1, [4]), (3, [4]), (2, [4])],
         entered = [0, 1, 3, 4, 2]\<rparr>
   \<and> count_list [0, 1, 3, 4, 2] (3::nat) \<le> 1
   \<and> isValueServer shared_pdf 3 2
   \<and> map_of [(1, [4]), (3, [4]), (2, [4::nat])] (3::nat) = Some [4]
   \<and> propagate_servers (\<lambda>server normSet st. None) shared_pdf 2 [4] [3]
        \<lparr>p_list = [0, 1, 3, 4, 2], normSets = [(1, [4]), (3, [4]), (2, [4])],
         entered = [0, 1, 3, 4, 2]\<rparr>
       = Some (Inr \<lparr>p_list = [0, 1, 3, 4, 2], normSets = [(1, [4]), (3, [4]), (2, [4])],
                    entered = [0, 1, 3, 4, 2]\<rparr>)"
proof -
  let ?sc = "\<lparr>p_list = [0, 1, 3, 4, 2], normSets = [(1, [4]), (3, [4]), (2, [4])],
             entered = [0, 1, 3, 4, 2]\<rparr>"
  have p: "isPdf shared_pdf 3" and v: "isValueServer shared_pdf 3 2"
    by (simp_all add: shared_pdf_def plain_graph_def)
  have s: "serverNormSet shared_pdf 2 [4] 3 = [4]"
    by (simp add: serverNormSet_def shared_pdf_def plain_graph_def)
  note t = pdf_entered_at_most_once[OF p, of "\<lparr>p_list = [], normSets = [], entered = []\<rparr>"
      4 0 "[4]" ?sc 2 "[4]" 3 ?sc "[4]" "\<lambda>server normSet st. None" "[]"]
  from t shared_pdf_run shared_pdf_reach v s
  have "count_list [0, 1, 3, 4, 2] (3::nat) \<le> 1"
    and "propagate_servers (\<lambda>server normSet st. None) shared_pdf 2 [4] [3] ?sc = Some (Inr ?sc)"
    by (simp_all add: hasSameLayout_def)
  with p v shared_pdf_run shared_pdf_reach show ?thesis by simp
qed


end
